theory Spec2Isabelle
  imports Complex_Main "HOL-Library.Word" "HOL-Library.List_Lexorder" "HOL-Library.Sublist"
begin

section \<open>JavaScript strings and values\<close>

text \<open>
  A JavaScript string is a sequence of 16-bit code units; indexing (\<^verbatim>\<open>value[i]\<close>),
  \<^verbatim>\<open>length\<close> and regular expressions without the \<^verbatim>\<open>u\<close> flag all work on code units.
  \<open>js\<close> embeds an ASCII literal.
\<close>

type_synonym code_unit = "16 word"
type_synonym jsstring = "code_unit list"

definition js :: "string \<Rightarrow> jsstring" where
  "js s = map (\<lambda>c. of_nat (of_char c)) s"

definition BACKSLASH :: code_unit where "BACKSLASH = 92"
definition LBRACE :: code_unit where "LBRACE = 123"
definition RBRACE :: code_unit where "RBRACE = 125"

text \<open>\<^verbatim>\<open>value[i]\<close>: the code unit at index \<open>i\<close>, \<^verbatim>\<open>undefined\<close> (here \<open>None\<close>) out of range.\<close>

definition char_at :: "jsstring \<Rightarrow> nat \<Rightarrow> code_unit option" where
  "char_at v i = (if i < length v then Some (v ! i) else None)"

text \<open>The class \<^verbatim>\<open>\d\<close> of a regular expression: the ASCII digits.\<close>

definition is_digit :: "code_unit \<Rightarrow> bool" where
  "is_digit c = (48 \<le> c \<and> c \<le> 57)"

text \<open>
  \<^verbatim>\<open>String.prototype.trim\<close> removes the code units of WhiteSpace and LineTerminator
  (ECMAScript) from both ends.
\<close>

definition is_whitespace :: "code_unit \<Rightarrow> bool" where
  "is_whitespace c =
     (c = 0x9 \<or> c = 0xA \<or> c = 0xB \<or> c = 0xC \<or> c = 0xD \<or> c = 0x20 \<or> c = 0xA0
      \<or> c = 0x1680 \<or> (0x2000 \<le> c \<and> c \<le> 0x200A) \<or> c = 0x2028 \<or> c = 0x2029
      \<or> c = 0x202F \<or> c = 0x205F \<or> c = 0x3000 \<or> c = 0xFEFF)"

definition trim :: "jsstring \<Rightarrow> jsstring" where
  "trim s = rev (dropWhile is_whitespace (rev (dropWhile is_whitespace s)))"

text \<open>
  The values a property read can give: the JSON values, \<^verbatim>\<open>undefined\<close>, and the built-in
  methods every object inherits from \<^verbatim>\<open>Object.prototype\<close>. The checker never reads
  the numeric payload of a number.
\<close>

datatype js_value =
    JNull
  | JBool bool
  | JNum real
  | JStr jsstring
  | JArr "js_value list"
  | JObj "(jsstring \<times> js_value) list"
  | Function
  | Undefined

fun typeof :: "js_value \<Rightarrow> jsstring" where
  "typeof JNull = js ''object''"
| "typeof (JBool b) = js ''boolean''"
| "typeof (JNum x) = js ''number''"
| "typeof (JStr s) = js ''string''"
| "typeof (JArr xs) = js ''object''"
| "typeof (JObj kvs) = js ''object''"
| "typeof Function = js ''function''"
| "typeof Undefined = js ''undefined''"

section \<open>Maps with insertion order\<close>

text \<open>
  A JavaScript \<^verbatim>\<open>Map\<close> iterates in insertion order; \<^verbatim>\<open>set\<close> on a key that is present
  replaces its value in place, on a new key it appends the entry.
\<close>

type_synonym ('k, 'v) jsmap = "('k \<times> 'v) list"

definition jsmap_get :: "('k, 'v) jsmap \<Rightarrow> 'k \<Rightarrow> 'v option" where
  "jsmap_get m k = map_of m k"

definition jsmap_has :: "('k, 'v) jsmap \<Rightarrow> 'k \<Rightarrow> bool" where
  "jsmap_has m k = (map_of m k \<noteq> None)"

fun jsmap_set :: "('k, 'v) jsmap \<Rightarrow> 'k \<Rightarrow> 'v \<Rightarrow> ('k, 'v) jsmap" where
  "jsmap_set [] k v = [(k, v)]"
| "jsmap_set ((k', v') # m) k v =
     (if k' = k then (k, v) # m else (k', v') # jsmap_set m k v)"

type_synonym counts = "(jsstring, nat) jsmap"

text \<open>\<^verbatim>\<open>counts.set(token, (counts.get(token) ?? 0) + 1)\<close>\<close>

definition increment :: "counts \<Rightarrow> jsstring \<Rightarrow> counts" where
  "increment counts token =
     jsmap_set counts token ((case jsmap_get counts token of None \<Rightarrow> 0 | Some c \<Rightarrow> c) + 1)"

section \<open>The tokenizer: collectPlaceholders\<close>

text \<open>
  \<^verbatim>\<open>RegExp.prototype.exec\<close> of a global pattern, from \<^verbatim>\<open>lastIndex\<close> \<open>i\<close>: the match
  is tried at \<open>i\<close>, then at \<open>i + 1\<close>, and so on; past the end of the string the search
  fails (and \<^verbatim>\<open>lastIndex\<close> goes back to 0). The pattern is the parameter \<open>match_at\<close>,
  which gives what the pattern matches at one position, if anything. The result is
  \<^verbatim>\<open>match.index\<close> with the match.
\<close>

function regexp_exec ::
  "(jsstring \<Rightarrow> nat \<Rightarrow> 'm option) \<Rightarrow> jsstring \<Rightarrow> nat \<Rightarrow> (nat \<times> 'm) option" where
  "regexp_exec match_at v i =
     (if length v < i then None
      else case match_at v i of
             Some m \<Rightarrow> Some (i, m)
           | None \<Rightarrow> regexp_exec match_at v (Suc i))"
  by pat_completeness auto
termination
  by (relation "measure (\<lambda>(match_at, v, i). Suc (length v) - i)") auto

declare regexp_exec.simps [simp del]

text \<open>
  \<^verbatim>\<open>PLACEHOLDER_PATTERN = /\{([^{}]+)\}/g\<close> at position \<open>s\<close>: an opening brace, the
  longest run of code units that are not braces, which must not be empty, and a closing
  brace. (A shorter run is followed by a code unit that is not a brace, so backtracking
  finds nothing more.) The result is the capture group \<^verbatim>\<open>match[1]\<close>; the whole match
  \<^verbatim>\<open>match[0]\<close> is two code units longer.
\<close>

definition placeholder_match :: "jsstring \<Rightarrow> nat \<Rightarrow> jsstring option" where
  "placeholder_match v s =
     (if char_at v s = Some LBRACE then
        (let body = takeWhile (\<lambda>c. c \<noteq> LBRACE \<and> c \<noteq> RBRACE) (drop (Suc s) v)
         in if body \<noteq> [] \<and> char_at v (Suc s + length body) = Some RBRACE
            then Some body else None)
      else None)"

text \<open>
  \<^verbatim>\<open>escapeRegExp\<close>: \<^verbatim>\<open>value.replace(/[.*+?^${}()|[\]\\]/g, "\\$&")\<close> puts a backslash
  before every syntax character of a regular expression.
\<close>

definition syntax_character :: "code_unit \<Rightarrow> bool" where
  "syntax_character c =
     (c = 0x2E \<or> c = 0x2A \<or> c = 0x2B \<or> c = 0x3F \<or> c = 0x5E \<or> c = 0x24 \<or> c = LBRACE
      \<or> c = RBRACE \<or> c = 0x28 \<or> c = 0x29 \<or> c = 0x7C \<or> c = 0x5B \<or> c = 0x5D
      \<or> c = BACKSLASH)"

fun escapeRegExp :: "jsstring \<Rightarrow> jsstring" where
  "escapeRegExp [] = []"
| "escapeRegExp (c # cs) =
     (if syntax_character c then BACKSLASH # c # escapeRegExp cs else c # escapeRegExp cs)"

text \<open>
  The string a pattern source matches literally, when the source is made of characters
  that are not syntax characters and of syntax characters behind a backslash; \<open>None\<close>
  for any other source.
\<close>

fun pattern_literal :: "jsstring \<Rightarrow> jsstring option" where
  "pattern_literal [] = Some []"
| "pattern_literal [c] = (if syntax_character c then None else Some [c])"
| "pattern_literal (c # d # cs) =
     (if c = BACKSLASH then
        (if syntax_character d then map_option ((#) d) (pattern_literal cs) else None)
      else if syntax_character c then None
      else map_option ((#) c) (pattern_literal (d # cs)))"

text \<open>
  \<^verbatim>\<open>new RegExp(`${escapeRegExp(prefix)}\\d+`, "g")\<close> at position \<open>s\<close>: the escaped
  prefix matches the prefix literally (\<open>pattern_literal (escapeRegExp pfx) = Some pfx\<close>,
  proved below), and it is followed by the longest run of digits, which must not be
  empty. The result is the whole match \<^verbatim>\<open>match[0]\<close>.
\<close>

definition keyword_match :: "jsstring \<Rightarrow> jsstring \<Rightarrow> nat \<Rightarrow> jsstring option" where
  "keyword_match pfx v s =
     (if take (length pfx) (drop s v) = pfx then
        (let digits = takeWhile is_digit (drop (s + length pfx) v)
         in if digits \<noteq> [] then Some (pfx @ digits) else None)
      else None)"

lemma regexp_exec_bounds:
  "regexp_exec match_at v i = Some (s, m) \<Longrightarrow> i \<le> s \<and> s \<le> length v \<and> match_at v s = Some m"
proof (induction match_at v i rule: regexp_exec.induct)
  case (1 match_at v i)
  show ?case
  proof (cases "length v < i")
    case True
    with "1.prems" show ?thesis by (simp add: regexp_exec.simps)
  next
    case False
    show ?thesis
    proof (cases "match_at v i")
      case None
      with False "1.prems" have "regexp_exec match_at v (Suc i) = Some (s, m)"
        by (simp add: regexp_exec.simps [of match_at v i])
      with "1.IH" False None show ?thesis by fastforce
    next
      case (Some m')
      with False "1.prems" show ?thesis
        by (simp add: regexp_exec.simps [of match_at v i])
    qed
  qed
qed

lemma placeholder_match_end:
  "placeholder_match v s = Some raw \<Longrightarrow> s + (length raw + 2) \<le> length v"
  by (auto simp: placeholder_match_def char_at_def Let_def split: if_splits)

lemma keyword_match_end:
  "keyword_match pfx v s = Some tok \<Longrightarrow> 0 < length tok \<and> s + length tok \<le> length v"
proof -
  assume a: "keyword_match pfx v s = Some tok"
  define ds where "ds = takeWhile is_digit (drop (s + length pfx) v)"
  from a have p: "take (length pfx) (drop s v) = pfx" and d: "ds \<noteq> []"
    and t: "tok = pfx @ ds"
    by (auto simp: keyword_match_def Let_def ds_def split: if_splits)
  have "length ds \<le> length (drop (s + length pfx) v)"
    unfolding ds_def by (rule length_takeWhile_le)
  moreover from d have "drop (s + length pfx) v \<noteq> []"
    by (auto simp: ds_def)
  ultimately have "s + length pfx + length ds \<le> length v"
    by simp
  with d t show ?thesis by simp
qed

lemma placeholder_exec_progress:
  assumes "regexp_exec placeholder_match v i = Some (s, raw)"
  shows "Suc (length v) - (s + (length raw + 2)) < Suc (length v) - i"
proof -
  from assms have "i \<le> s" and "placeholder_match v s = Some raw"
    by (auto dest: regexp_exec_bounds)
  then show ?thesis
    using placeholder_match_end [of v s raw] by simp
qed

lemma keyword_exec_progress:
  assumes "regexp_exec (keyword_match pfx) v i = Some (s, tok)"
  shows "Suc (length v) - (s + length tok) < Suc (length v) - i"
proof -
  from assms have le: "i \<le> s" and "keyword_match pfx v s = Some tok"
    by (auto dest: regexp_exec_bounds)
  then have "0 < length tok" and "s + length tok \<le> length v"
    using keyword_match_end [of pfx v s tok] by blast+
  with le show ?thesis by linarith
qed

text \<open>
  The first loop of \<^verbatim>\<open>collectPlaceholders\<close>. \<open>lastIndex\<close> is the state of the global
  pattern: 0 when the function is entered (every loop on the pattern runs until
  \<^verbatim>\<open>exec\<close> fails, which resets it), and the end of the match after each success.
\<close>

function collect_braces :: "jsstring \<Rightarrow> nat \<Rightarrow> counts \<Rightarrow> counts" where
  "collect_braces v lastIndex counts =
     (case regexp_exec placeholder_match v lastIndex of
        None \<Rightarrow> counts
      | Some (startIndex, rawToken) \<Rightarrow>
          (let endIndex = startIndex + (length rawToken + 2) in
           if 0 < startIndex \<and> char_at v (startIndex - 1) = Some BACKSLASH then
             collect_braces v endIndex counts
           else if 0 < startIndex \<and> char_at v (startIndex - 1) = Some LBRACE then
             collect_braces v endIndex counts
           else if endIndex < length v \<and> char_at v endIndex = Some RBRACE then
             collect_braces v endIndex counts
           else
             (let token = trim rawToken in
              if token = [] then collect_braces v endIndex counts
              else collect_braces v endIndex (increment counts token))))"
  by pat_completeness auto
termination
  by (relation "measure (\<lambda>(v, lastIndex, counts). Suc (length v) - lastIndex)")
    (auto dest!: placeholder_exec_progress)

declare collect_braces.simps [simp del]

text \<open>
  The inner loop of the keyword pass, for one prefix. \<^verbatim>\<open>value[startIndex - 1]\<close> is
  \<^verbatim>\<open>undefined\<close> when the match starts the string.
\<close>

function collect_keyword :: "jsstring \<Rightarrow> jsstring \<Rightarrow> nat \<Rightarrow> counts \<Rightarrow> counts" where
  "collect_keyword pfx v lastIndex counts =
     (case regexp_exec (keyword_match pfx) v lastIndex of
        None \<Rightarrow> counts
      | Some (startIndex, token) \<Rightarrow>
          (let endIndex = startIndex + length token;
               charBefore = (if startIndex = 0 then None else char_at v (startIndex - 1));
               charAfter = char_at v endIndex
           in if charBefore = Some LBRACE \<and> charAfter = Some RBRACE then
                collect_keyword pfx v endIndex counts
              else collect_keyword pfx v endIndex (increment counts token)))"
  by pat_completeness auto
termination
  by (relation "measure (\<lambda>(pfx, v, lastIndex, counts). Suc (length v) - lastIndex)")
    (auto dest!: keyword_exec_progress)

declare collect_keyword.simps [simp del]

text \<open>The loop over the configured prefixes; an empty prefix is skipped.\<close>

fun collect_keywords :: "jsstring list \<Rightarrow> jsstring \<Rightarrow> counts \<Rightarrow> counts" where
  "collect_keywords [] v counts = counts"
| "collect_keywords (pfx # rest) v counts =
     (if pfx = [] then collect_keywords rest v counts
      else collect_keywords rest v (collect_keyword pfx v 0 counts))"

definition collectPlaceholders :: "js_value \<Rightarrow> jsstring list \<Rightarrow> counts" where
  "collectPlaceholders val keywordPrefixes =
     (case val of
        JStr v \<Rightarrow>
          (let counts = collect_braces v 0 []
           in if 0 < length keywordPrefixes then collect_keywords keywordPrefixes v counts
              else counts)
      | _ \<Rightarrow> [])"

section \<open>The differ: diffPlaceholders\<close>

record count_mismatch =
  token :: jsstring
  expected :: nat
  actual :: nat

record diff =
  missing :: "jsstring list"
  extra :: "jsstring list"
  countMismatch :: "count_mismatch list"

text \<open>The loop over \<^verbatim>\<open>sourceMap.entries()\<close>; \<^verbatim>\<open>push\<close> appends.\<close>

fun diff_source :: "counts \<Rightarrow> counts \<Rightarrow> diff \<Rightarrow> diff" where
  "diff_source [] targetMap d = d"
| "diff_source ((tok, n) # rest) targetMap d =
     (case jsmap_get targetMap tok of
        None \<Rightarrow> diff_source rest targetMap (d\<lparr>missing := missing d @ [tok]\<rparr>)
      | Some targetCount \<Rightarrow>
          if targetCount \<noteq> n then
            diff_source rest targetMap
              (d\<lparr>countMismatch := countMismatch d
                   @ [\<lparr>token = tok, expected = n, actual = targetCount\<rparr>]\<rparr>)
          else diff_source rest targetMap d)"

text \<open>The loop over \<^verbatim>\<open>targetMap.entries()\<close>.\<close>

fun diff_target :: "counts \<Rightarrow> counts \<Rightarrow> diff \<Rightarrow> diff" where
  "diff_target [] sourceMap d = d"
| "diff_target ((tok, n) # rest) sourceMap d =
     (if \<not> jsmap_has sourceMap tok then
        diff_target rest sourceMap (d\<lparr>extra := extra d @ [tok]\<rparr>)
      else diff_target rest sourceMap d)"

definition diffPlaceholders :: "counts \<Rightarrow> counts \<Rightarrow> diff" where
  "diffPlaceholders sourceMap targetMap =
     diff_target targetMap sourceMap
       (diff_source sourceMap targetMap \<lparr>missing = [], extra = [], countMismatch = []\<rparr>)"

text \<open>
  \<^verbatim>\<open>diff.missing.length || diff.extra.length || diff.countMismatch.length\<close> is falsy:
  the diff is clean.
\<close>

definition clean :: "diff \<Rightarrow> bool" where
  "clean d = (missing d = [] \<and> extra d = [] \<and> countMismatch d = [])"

section \<open>The comparator: compareLocaleFile\<close>

text \<open>The decimal numeral of a count, as a template literal renders it.\<close>

fun decimal :: "nat \<Rightarrow> jsstring" where
  "decimal n =
     (if n < 10 then [48 + of_nat n]
      else decimal (n div 10) @ [48 + of_nat (n mod 10)])"

declare decimal.simps [simp del]

text \<open>\<^verbatim>\<open>Array.prototype.sort\<close> without a comparator orders strings by code units.\<close>

definition formatPlaceholderMap :: "counts \<Rightarrow> jsstring list" where
  "formatPlaceholderMap placeholderMap =
     sort (map (\<lambda>(tok, n). if 1 < n then tok @ js '' (x'' @ decimal n @ js '')'' else tok)
             placeholderMap)"

text \<open>
  A locale document is the object \<^verbatim>\<open>JSON.parse\<close> returns for a file whose top level
  is an object: its own properties, each key once, in the order \<^verbatim>\<open>Object.entries\<close>
  lists them.
  Such an object inherits from \<^verbatim>\<open>Object.prototype\<close>, whose properties the operator
  \<^verbatim>\<open>in\<close> and a property read find as well: they are methods, apart from the accessor
  \<^verbatim>\<open>__proto__\<close>, which reads as the prototype object itself.
\<close>

type_synonym document = "(jsstring \<times> js_value) list"

definition object_prototype_properties :: "jsstring list" where
  "object_prototype_properties =
     [js ''constructor'', js ''__defineGetter__'', js ''__defineSetter__'',
      js ''hasOwnProperty'', js ''__lookupGetter__'', js ''__lookupSetter__'',
      js ''isPrototypeOf'', js ''propertyIsEnumerable'', js ''toString'', js ''valueOf'',
      js ''__proto__'', js ''toLocaleString'']"

text \<open>\<^verbatim>\<open>key in targetEntries\<close>\<close>

definition has_property :: "jsstring \<Rightarrow> document \<Rightarrow> bool" where
  "has_property key obj =
     (map_of obj key \<noteq> None \<or> key \<in> set object_prototype_properties)"

text \<open>\<^verbatim>\<open>targetEntries[key]\<close>\<close>

definition get_property :: "document \<Rightarrow> jsstring \<Rightarrow> js_value" where
  "get_property obj key =
     (case map_of obj key of
        Some v \<Rightarrow> v
      | None \<Rightarrow>
          if key = js ''__proto__'' then JObj []
          else if key \<in> set object_prototype_properties then Function
          else Undefined)"

datatype warning =
    MissingKey jsstring
  | NonString jsstring jsstring

datatype issue = PlaceholderMismatch jsstring diff "jsstring list" "jsstring list"

fun warning_type :: "warning \<Rightarrow> jsstring" where
  "warning_type (MissingKey key) = js ''missing-key''"
| "warning_type (NonString key actualType) = js ''non-string''"

fun warning_key :: "warning \<Rightarrow> jsstring" where
  "warning_key (MissingKey key) = key"
| "warning_key (NonString key actualType) = key"

fun issue_type :: "issue \<Rightarrow> jsstring" where
  "issue_type (PlaceholderMismatch key d es as) = js ''placeholder-mismatch''"

fun issue_key :: "issue \<Rightarrow> jsstring" where
  "issue_key (PlaceholderMismatch key d es as) = key"

record outcome =
  errors :: "issue list"
  warnings :: "warning list"

text \<open>The loop over \<^verbatim>\<open>sourcePlaceholders.entries()\<close>.\<close>

fun compare_entries ::
  "(jsstring, counts) jsmap \<Rightarrow> document \<Rightarrow> jsstring list \<Rightarrow> outcome \<Rightarrow> outcome" where
  "compare_entries [] targetEntries collectOptions out = out"
| "compare_entries ((key, sourcePlaceholderMap) # rest) targetEntries collectOptions out =
     (if \<not> has_property key targetEntries then
        compare_entries rest targetEntries collectOptions
          (out\<lparr>warnings := warnings out @ [MissingKey key]\<rparr>)
      else
        (let targetValue = get_property targetEntries key in
         if typeof targetValue \<noteq> js ''string'' then
           compare_entries rest targetEntries collectOptions
             (out\<lparr>warnings := warnings out @ [NonString key (typeof targetValue)]\<rparr>)
         else
           (let targetPlaceholderMap = collectPlaceholders targetValue collectOptions;
                d = diffPlaceholders sourcePlaceholderMap targetPlaceholderMap
            in if missing d \<noteq> [] \<or> extra d \<noteq> [] \<or> countMismatch d \<noteq> [] then
                 compare_entries rest targetEntries collectOptions
                   (out\<lparr>errors := errors out
                        @ [PlaceholderMismatch key d
                             (formatPlaceholderMap sourcePlaceholderMap)
                             (formatPlaceholderMap targetPlaceholderMap)]\<rparr>)
               else compare_entries rest targetEntries collectOptions out)))"

definition compareLocaleFile ::
  "(jsstring, counts) jsmap \<Rightarrow> document \<Rightarrow> jsstring list \<Rightarrow> outcome" where
  "compareLocaleFile sourcePlaceholders targetEntries collectOptions =
     compare_entries sourcePlaceholders targetEntries collectOptions
       \<lparr>errors = [], warnings = []\<rparr>"

text \<open>The loop over \<^verbatim>\<open>Object.entries(sourceEntries)\<close>.\<close>

definition buildSourcePlaceholderMap ::
  "document \<Rightarrow> jsstring list \<Rightarrow> (jsstring, counts) jsmap" where
  "buildSourcePlaceholderMap sourceEntries collectOptions =
     foldl (\<lambda>m (key, val). jsmap_set m key (collectPlaceholders val collectOptions))
       [] sourceEntries"

section \<open>The aggregator: resolveSourceFile and checkPlaceholders\<close>

text \<open>A thrown \<^verbatim>\<open>Error\<close>, with its message.\<close>

datatype js_error = Error jsstring

record dirent =
  name :: jsstring
  isFile :: bool

definition DEFAULT_SOURCE_CANDIDATES :: "jsstring list" where
  "DEFAULT_SOURCE_CANDIDATES =
     [js ''zh-cn.json'', js ''zhCN.json'', js ''zh-CN.json'', js ''zh_CN.json'']"

definition DEFAULT_IGNORES :: "jsstring list" where
  "DEFAULT_IGNORES = [js ''package.json'', js ''package-lock.json'', js ''npm-shrinkwrap.json'']"

text \<open>\<^verbatim>\<open>Array.prototype.join\<close>\<close>

fun join :: "jsstring list \<Rightarrow> jsstring \<Rightarrow> jsstring" where
  "join [] sep = []"
| "join [x] sep = x"
| "join (x # y # ys) sep = x @ sep @ join (y # ys) sep"

text \<open>
  \<open>override\<close> is \<^verbatim>\<open>undefined\<close> (\<open>None\<close>) or a string; \<^verbatim>\<open>if (override)\<close> takes the
  empty string as absent too.
\<close>

definition resolveSourceFile ::
  "dirent list \<Rightarrow> jsstring \<Rightarrow> jsstring option \<Rightarrow> js_error + jsstring" where
  "resolveSourceFile directoryEntries directory override =
     (case (if override = Some [] then None else override) of
        Some ov \<Rightarrow>
          (case find (\<lambda>entry. isFile entry \<and> name entry = ov) directoryEntries of
             None \<Rightarrow>
               Inl (Error (js ''Source locale file \"'' @ ov @ js ''\" not found in ''
                           @ directory))
           | Some explicitEntry \<Rightarrow> Inr ov)
      | None \<Rightarrow>
          (case find (\<lambda>nm. list_ex (\<lambda>entry. isFile entry \<and> name entry = nm) directoryEntries)
                  DEFAULT_SOURCE_CANDIDATES of
             Some candidate \<Rightarrow> Inr candidate
           | None \<Rightarrow>
               Inl (Error (js ''Source locale file not found in '' @ directory
                           @ js ''. Provide --source or add one of: ''
                           @ join DEFAULT_SOURCE_CANDIDATES (js '', '')))))"

text \<open>\<^verbatim>\<open>String.prototype.endsWith\<close>\<close>

definition endsWith :: "jsstring \<Rightarrow> jsstring \<Rightarrow> bool" where
  "endsWith s suf = (length suf \<le> length s \<and> drop (length s - length suf) s = suf)"

record file_result = outcome +
  "file" :: jsstring

record report =
  ok :: bool
  directory :: jsstring
  sourceFile :: jsstring
  filesChecked :: "jsstring list"
  failures :: "file_result list"
  warningsOnly :: "file_result list"

text \<open>
  What the run reads: the listing of the directory (\<^verbatim>\<open>fs.readdir\<close>) and, for a file
  name, what \<^verbatim>\<open>loadJson\<close> gives for it, a document or the error thrown when the file
  cannot be read or parsed.
\<close>

record file_system =
  readdir :: "js_error + dirent list"
  loadJson :: "jsstring \<Rightarrow> js_error + document"

record options =
  cwd :: jsstring
  source :: "jsstring option"
  ignore :: "jsstring list"
  keywordPrefixes :: "jsstring list"

text \<open>The loop over \<^verbatim>\<open>localeFiles\<close>; a file that fails to load ends the run.\<close>

fun compare_files ::
  "file_system \<Rightarrow> (jsstring, counts) jsmap \<Rightarrow> jsstring list \<Rightarrow> jsstring list
     \<Rightarrow> file_result list \<Rightarrow> js_error + file_result list" where
  "compare_files fs sourcePlaceholders collectOptions [] results = Inr results"
| "compare_files fs sourcePlaceholders collectOptions (f # rest) results =
     (case loadJson fs f of
        Inl e \<Rightarrow> Inl e
      | Inr targetEntries \<Rightarrow>
          (let out = compareLocaleFile sourcePlaceholders targetEntries collectOptions
           in compare_files fs sourcePlaceholders collectOptions rest
                (results @ [\<lparr>errors = errors out, warnings = warnings out, file = f\<rparr>])))"

text \<open>
  \<^verbatim>\<open>path.resolve(cwd)\<close> is taken as the identity (an absolute, normalised \<open>cwd\<close>).
\<close>

definition checkPlaceholders :: "file_system \<Rightarrow> options \<Rightarrow> js_error + report" where
  "checkPlaceholders fs opts =
     (case readdir fs of
        Inl e \<Rightarrow> Inl e
      | Inr directoryEntries \<Rightarrow>
          (case resolveSourceFile directoryEntries (cwd opts) (source opts) of
             Inl e \<Rightarrow> Inl e
           | Inr resolvedSource \<Rightarrow>
               (let ignoreSet = resolvedSource # ignore opts @ DEFAULT_IGNORES;
                    localeFiles =
                      sort (map name
                        (filter (\<lambda>entry. isFile entry \<and> endsWith (name entry) (js ''.json'')
                                   \<and> name entry \<notin> set ignoreSet)
                           directoryEntries))
                in case loadJson fs resolvedSource of
                     Inl e \<Rightarrow> Inl e
                   | Inr sourceEntries \<Rightarrow>
                       (let collectOptions = keywordPrefixes opts;
                            sourcePlaceholders =
                              buildSourcePlaceholderMap sourceEntries collectOptions
                        in case compare_files fs sourcePlaceholders collectOptions
                                  localeFiles [] of
                             Inl e \<Rightarrow> Inl e
                           | Inr results \<Rightarrow>
                               (let fails = filter (\<lambda>r. 0 < length (errors r)) results;
                                    warns = filter (\<lambda>r. length (errors r) = 0
                                                      \<and> 0 < length (warnings r)) results
                                in Inr \<lparr>ok = (length fails = 0),
                                        directory = cwd opts,
                                        sourceFile = resolvedSource,
                                        filesChecked = localeFiles,
                                        failures = fails,
                                        warningsOnly = warns\<rparr>)))))"

section \<open>Notions of the specification\<close>

subsection \<open>Multisets\<close>

text \<open>The count of a token in a multiset; 0 when the token is absent.\<close>

definition count_of :: "counts \<Rightarrow> jsstring \<Rightarrow> nat" where
  "count_of m t = (case jsmap_get m t of None \<Rightarrow> 0 | Some n \<Rightarrow> n)"

text \<open>A multiset as the tokenizer builds it: no token twice, no count of zero.\<close>

definition well_formed :: "counts \<Rightarrow> bool" where
  "well_formed m = (distinct (map fst m) \<and> (\<forall>(tok, n)\<in>set m. 1 \<le> n))"

subsection \<open>Brace-delimited matches\<close>

text \<open>
  A brace-delimited match of the string \<open>v\<close>: at position \<open>s\<close> stand an opening brace,
  the one or more code units \<open>body\<close>, none of them a brace, and a closing brace. The
  match ends at \<open>s + length body + 2\<close>.
\<close>

definition brace_match :: "jsstring \<Rightarrow> nat \<Rightarrow> jsstring \<Rightarrow> bool" where
  "brace_match v s body =
     (body \<noteq> [] \<and> LBRACE \<notin> set body \<and> RBRACE \<notin> set body
      \<and> s + length body + 2 \<le> length v
      \<and> take (length body + 2) (drop s v) = LBRACE # body @ [RBRACE])"

text \<open>
  The three exclusion rules, for a match that starts at \<open>s\<close> and ends at \<open>e\<close>: the
  code unit before the opening brace is a backslash, or is an opening brace; the code
  unit after the closing brace is a closing brace.
\<close>

definition escaped :: "jsstring \<Rightarrow> nat \<Rightarrow> bool" where
  "escaped v s = (0 < s \<and> v ! (s - 1) = BACKSLASH)"

definition doubled_open :: "jsstring \<Rightarrow> nat \<Rightarrow> bool" where
  "doubled_open v s = (0 < s \<and> v ! (s - 1) = LBRACE)"

definition doubled_close :: "jsstring \<Rightarrow> nat \<Rightarrow> bool" where
  "doubled_close v e = (e < length v \<and> v ! e = RBRACE)"

text \<open>A match that none of the three exclusion rules removes.\<close>

definition accepted_match :: "jsstring \<Rightarrow> nat \<Rightarrow> jsstring \<Rightarrow> bool" where
  "accepted_match v s body =
     (brace_match v s body \<and> \<not> escaped v s \<and> \<not> doubled_open v s
      \<and> \<not> doubled_close v (s + length body + 2))"

text \<open>
  For the proofs: the token the first loop of \<open>collectPlaceholders\<close> counts for the
  match that starts at \<open>s\<close>, if there is a match and the loop does not skip it (the
  tests are the loop's own).
\<close>

definition counted_brace_token :: "jsstring \<Rightarrow> nat \<Rightarrow> jsstring option" where
  "counted_brace_token v s =
     (case placeholder_match v s of
        None \<Rightarrow> None
      | Some raw \<Rightarrow>
          if (0 < s \<and> char_at v (s - 1) = Some BACKSLASH)
             \<or> (0 < s \<and> char_at v (s - 1) = Some LBRACE)
             \<or> (s + (length raw + 2) < length v
                 \<and> char_at v (s + (length raw + 2)) = Some RBRACE)
             \<or> trim raw = []
          then None else Some (trim raw))"

subsection \<open>Keyword occurrences\<close>

text \<open>
  An occurrence of the prefix \<open>p\<close> at position \<open>s\<close> of \<open>v\<close>, immediately followed by
  a digit; the text it matches, the prefix with all the digits that follow; a span
  from \<open>s\<close> to \<open>e\<close> that stands directly between an opening and a closing brace; and a
  prefix that contains no digit.
\<close>

definition keyword_occurrence :: "jsstring \<Rightarrow> jsstring \<Rightarrow> nat \<Rightarrow> bool" where
  "keyword_occurrence p v s =
     (take (length p) (drop s v) = p \<and> s + length p < length v \<and> is_digit (v ! (s + length p)))"

definition keyword_text :: "jsstring \<Rightarrow> jsstring \<Rightarrow> nat \<Rightarrow> jsstring" where
  "keyword_text p v s = p @ takeWhile is_digit (drop (s + length p) v)"

definition brace_wrapped :: "jsstring \<Rightarrow> nat \<Rightarrow> nat \<Rightarrow> bool" where
  "brace_wrapped v s e = (0 < s \<and> v ! (s - 1) = LBRACE \<and> e < length v \<and> v ! e = RBRACE)"

definition digit_free :: "jsstring \<Rightarrow> bool" where
  "digit_free p = (\<forall>c\<in>set p. \<not> is_digit c)"

text \<open>
  The occurrences the scan takes: going through the positions from left to right, an
  occurrence is taken unless it begins before \<open>free\<close>, the end of the text matched at
  the occurrence taken last.
\<close>

fun taken_from :: "jsstring \<Rightarrow> jsstring \<Rightarrow> nat \<Rightarrow> nat list \<Rightarrow> nat list" where
  "taken_from p v free [] = []"
| "taken_from p v free (s # ss) =
     (if free \<le> s \<and> keyword_occurrence p v s
      then s # taken_from p v (s + length (keyword_text p v s)) ss
      else taken_from p v free ss)"

definition taken_occurrences :: "jsstring \<Rightarrow> jsstring \<Rightarrow> nat list" where
  "taken_occurrences p v = taken_from p v 0 [0..<length v]"

text \<open>
  No occurrence of \<open>p\<close> in \<open>v\<close> begins inside the text matched at another; and a
  sufficient condition on the prefix alone: it does not begin with a digit, and where a
  proper suffix of it is also its beginning, the character that follows that beginning
  is not a digit.
\<close>

definition non_overlapping :: "jsstring \<Rightarrow> jsstring \<Rightarrow> bool" where
  "non_overlapping p v =
     (\<forall>s j. keyword_occurrence p v s \<and> s < j \<and> j < s + length (keyword_text p v s)
            \<longrightarrow> \<not> keyword_occurrence p v j)"

definition overlap_free :: "jsstring \<Rightarrow> bool" where
  "overlap_free p =
     (p \<noteq> [] \<and> \<not> is_digit (hd p)
      \<and> (\<forall>d\<in>set [1..<length p].
            take (length p - d) p = drop d p \<longrightarrow> \<not> is_digit (p ! (length p - d))))"

text \<open>
  For the proofs: the token the keyword loop counts for the match that starts at \<open>s\<close>,
  if there is a match and the loop does not skip it.
\<close>

definition counted_keyword_token :: "jsstring \<Rightarrow> jsstring \<Rightarrow> nat \<Rightarrow> jsstring option" where
  "counted_keyword_token p v s =
     (case keyword_match p v s of
        None \<Rightarrow> None
      | Some tok \<Rightarrow>
          if (if s = 0 then None else char_at v (s - 1)) = Some LBRACE
             \<and> char_at v (s + length tok) = Some RBRACE
          then None else Some tok)"

subsection \<open>The three cases of a source key\<close>

text \<open>
  What the specification asks for one source key: a warning when the target has no
  entry at the key (missing-key) or an entry that is not a string (non-string, with the
  name of its type), and otherwise a placeholder-mismatch error when the diff of the two
  multisets is not clean. \<open>own_keys_only\<close> holds of a source table none of whose keys
  is the name of a property of \<^verbatim>\<open>Object.prototype\<close>.
\<close>

fun key_warnings :: "document \<Rightarrow> jsstring \<Rightarrow> warning list" where
  "key_warnings t key =
     (case map_of t key of
        None \<Rightarrow> [MissingKey key]
      | Some (JStr s) \<Rightarrow> []
      | Some val \<Rightarrow> [NonString key (typeof val)])"

fun key_errors :: "document \<Rightarrow> jsstring list \<Rightarrow> jsstring \<times> counts \<Rightarrow> issue list" where
  "key_errors t ps (key, sm) =
     (case map_of t key of
        Some (JStr s) \<Rightarrow>
          (let tm = collectPlaceholders (JStr s) ps; d = diffPlaceholders sm tm
           in if clean d then []
              else [PlaceholderMismatch key d (formatPlaceholderMap sm) (formatPlaceholderMap tm)])
      | _ \<Rightarrow> [])"

definition own_keys_only :: "(jsstring, counts) jsmap \<Rightarrow> bool" where
  "own_keys_only sp = (\<forall>k\<in>fst ` set sp. k \<notin> set object_prototype_properties)"

subsection \<open>Directories and runs\<close>

text \<open>A name that the listing has as a regular file.\<close>

definition regular_file :: "dirent list \<Rightarrow> jsstring \<Rightarrow> bool" where
  "regular_file directoryEntries nm = (\<exists>entry\<in>set directoryEntries. isFile entry \<and> name entry = nm)"




section \<open>Properties of the differ\<close>

lemma diff_source_missing:
  "missing (diff_source src tgt d) = missing d @ filter (\<lambda>t. jsmap_get tgt t = None) (map fst src)"
  by (induction src tgt d rule: diff_source.induct) (auto split: option.splits)

lemma diff_source_extra: "extra (diff_source src tgt d) = extra d"
  by (induction src tgt d rule: diff_source.induct) (auto split: option.splits)

lemma diff_source_countMismatch:
  "countMismatch (diff_source src tgt d) =
     countMismatch d
     @ map (\<lambda>(t, n). \<lparr>token = t, expected = n, actual = the (jsmap_get tgt t)\<rparr>)
         (filter (\<lambda>(t, n). jsmap_get tgt t \<noteq> None \<and> jsmap_get tgt t \<noteq> Some n) src)"
  by (induction src tgt d rule: diff_source.induct) (auto split: option.splits)

lemma diff_target_extra:
  "extra (diff_target tgt src d) = extra d @ filter (\<lambda>t. \<not> jsmap_has src t) (map fst tgt)"
  by (induction tgt src d rule: diff_target.induct) auto

lemma diff_target_missing: "missing (diff_target tgt src d) = missing d"
  by (induction tgt src d rule: diff_target.induct) auto

lemma diff_target_countMismatch: "countMismatch (diff_target tgt src d) = countMismatch d"
  by (induction tgt src d rule: diff_target.induct) auto

lemmas diff_fields = diffPlaceholders_def diff_source_missing diff_source_extra
  diff_source_countMismatch diff_target_extra diff_target_missing diff_target_countMismatch

lemma jsmap_get_None_iff: "jsmap_get m k = None \<longleftrightarrow> k \<notin> fst ` set m"
  by (simp add: jsmap_get_def map_of_eq_None_iff)

lemma jsmap_has_iff: "jsmap_has m k \<longleftrightarrow> k \<in> fst ` set m"
  by (simp add: jsmap_has_def map_of_eq_None_iff)

lemma mismatch_entries_set:
  assumes "distinct (map fst src)"
  shows "set (map (\<lambda>(t, n). \<lparr>token = t, expected = n, actual = the (jsmap_get tgt t)\<rparr>)
         (filter (\<lambda>(t, n). jsmap_get tgt t \<noteq> None \<and> jsmap_get tgt t \<noteq> Some n) src))
    = {\<lparr>token = t, expected = e, actual = a\<rparr> | t e a.
         jsmap_get src t = Some e \<and> jsmap_get tgt t = Some a \<and> e \<noteq> a}"
  using assms by (auto simp: jsmap_get_def image_iff dest: map_of_SomeD)

lemma mismatch_entries_distinct:
  assumes "distinct (map fst src)"
  shows "distinct (map token (map (\<lambda>(t, n). \<lparr>token = t, expected = n, actual = the (jsmap_get tgt t)\<rparr>)
         (filter (\<lambda>(t, n). jsmap_get tgt t \<noteq> None \<and> jsmap_get tgt t \<noteq> Some n) src)))"
proof -
  have "map token (map (\<lambda>(t, n). \<lparr>token = t, expected = n, actual = the (jsmap_get tgt t)\<rparr>) xs)
        = map fst xs" for xs :: counts
    by (induction xs) auto
  moreover from assms have "distinct (map fst
      (filter (\<lambda>(t, n). jsmap_get tgt t \<noteq> None \<and> jsmap_get tgt t \<noteq> Some n) src))"
    by (rule distinct_map_filter)
  ultimately show ?thesis by (simp only:)
qed

text \<open>
  Claim C3. For two maps with distinct keys, the diff lists in \<open>missing\<close> exactly the
  tokens of the source that the target lacks, in \<open>extra\<close> exactly the tokens of the
  target that the source lacks, and in \<open>countMismatch\<close> exactly one entry (token,
  expected = source count, actual = target count) for each token of both whose counts
  differ; no token is listed twice.
\<close>

theorem diffPlaceholders_classes:
  assumes "distinct (map fst sourceMap)" and "distinct (map fst targetMap)"
  shows "set (missing (diffPlaceholders sourceMap targetMap))
           = {t. jsmap_has sourceMap t \<and> \<not> jsmap_has targetMap t}
       \<and> distinct (missing (diffPlaceholders sourceMap targetMap))
       \<and> set (extra (diffPlaceholders sourceMap targetMap))
           = {t. jsmap_has targetMap t \<and> \<not> jsmap_has sourceMap t}
       \<and> distinct (extra (diffPlaceholders sourceMap targetMap))
       \<and> set (countMismatch (diffPlaceholders sourceMap targetMap))
           = {\<lparr>token = t, expected = e, actual = a\<rparr> | t e a.
                jsmap_get sourceMap t = Some e \<and> jsmap_get targetMap t = Some a \<and> e \<noteq> a}
       \<and> distinct (map token (countMismatch (diffPlaceholders sourceMap targetMap)))"
proof -
  have m: "set (missing (diffPlaceholders sourceMap targetMap))
           = {t. jsmap_has sourceMap t \<and> \<not> jsmap_has targetMap t}"
    by (auto simp: diff_fields jsmap_get_None_iff jsmap_has_iff)
  have x: "set (extra (diffPlaceholders sourceMap targetMap))
           = {t. jsmap_has targetMap t \<and> \<not> jsmap_has sourceMap t}"
    by (auto simp: diff_fields jsmap_has_iff)
  have dm: "distinct (missing (diffPlaceholders sourceMap targetMap))"
    using assms(1) by (simp add: diff_fields)
  have dx: "distinct (extra (diffPlaceholders sourceMap targetMap))"
    using assms(2) by (simp add: diff_fields)
  have c: "set (countMismatch (diffPlaceholders sourceMap targetMap))
           = {\<lparr>token = t, expected = e, actual = a\<rparr> | t e a.
                jsmap_get sourceMap t = Some e \<and> jsmap_get targetMap t = Some a \<and> e \<noteq> a}"
    using mismatch_entries_set [OF assms(1)] by (simp add: diff_fields)
  have dc: "distinct (map token (countMismatch (diffPlaceholders sourceMap targetMap)))"
    using mismatch_entries_distinct [OF assms(1)] by (simp add: diff_fields)
  from m x dm dx c dc show ?thesis by blast
qed

text \<open>
  The example of the specification: \<open>{a:1, b:2}\<close> against \<open>{a:1, b:1, c:1}\<close>.
\<close>

theorem diffPlaceholders_classes_witness:
  "distinct (map fst [(js ''a'', 1::nat), (js ''b'', 2)])
   \<and> distinct (map fst [(js ''a'', 1::nat), (js ''b'', 1), (js ''c'', 1)])
   \<and> diffPlaceholders [(js ''a'', 1), (js ''b'', 2)] [(js ''a'', 1), (js ''b'', 1), (js ''c'', 1)]
       = \<lparr>missing = [], extra = [js ''c''],
          countMismatch = [\<lparr>token = js ''b'', expected = 2, actual = 1\<rparr>]\<rparr>
   \<and> set (extra (diffPlaceholders [(js ''a'', 1), (js ''b'', 2)]
                  [(js ''a'', 1), (js ''b'', 1), (js ''c'', 1)]))
       = {t. jsmap_has [(js ''a'', 1), (js ''b'', 1), (js ''c'', 1)] t
             \<and> \<not> jsmap_has [(js ''a'', 1), (js ''b'', 2)] t}"
  using diffPlaceholders_classes [of "[(js ''a'', 1), (js ''b'', 2)]"
      "[(js ''a'', 1), (js ''b'', 1), (js ''c'', 1)]"]
  by (simp add: js_def diffPlaceholders_def jsmap_get_def jsmap_has_def)

text \<open>
  Claim C10. The diff of two maps is clean exactly when they hold the same tokens with the
  same counts; the diff of a map with itself is clean.
\<close>

theorem diff_clean_iff_equal:
  assumes "distinct (map fst sourceMap)"
  shows "(clean (diffPlaceholders sourceMap targetMap)
            \<longleftrightarrow> (\<forall>t. jsmap_get sourceMap t = jsmap_get targetMap t))
         \<and> clean (diffPlaceholders sourceMap sourceMap)"
proof -
  have iff: "clean (diffPlaceholders s t) \<longleftrightarrow> (\<forall>k. jsmap_get s k = jsmap_get t k)"
    if d: "distinct (map fst s)" for s t :: counts
  proof
    assume c: "clean (diffPlaceholders s t)"
    show "\<forall>k. jsmap_get s k = jsmap_get t k"
    proof
      fix k
      from c have m: "\<forall>x\<in>fst ` set s. jsmap_get t x \<noteq> None"
        and x: "\<forall>x\<in>fst ` set t. jsmap_has s x"
        and cm: "\<forall>(x, n)\<in>set s. \<forall>a. jsmap_get t x = Some a \<longrightarrow> a = n"
        by (auto simp: clean_def diff_fields filter_empty_conv)
      show "jsmap_get s k = jsmap_get t k"
      proof (cases "jsmap_get s k")
        case None
        then have "k \<notin> fst ` set s" by (simp add: jsmap_get_None_iff)
        with x have "k \<notin> fst ` set t" by (auto simp: jsmap_has_iff)
        then have "jsmap_get t k = None" by (simp add: jsmap_get_None_iff)
        with None show ?thesis by simp
      next
        case (Some n)
        then have "(k, n) \<in> set s" by (auto simp: jsmap_get_def dest: map_of_SomeD)
        with m cm Some show ?thesis by force
      qed
    qed
  next
    assume e: "\<forall>k. jsmap_get s k = jsmap_get t k"
    then have dom: "fst ` set s = fst ` set t"
      by (metis jsmap_get_None_iff subsetI subset_antisym)
    have "\<And>x n. (x, n) \<in> set s \<Longrightarrow> jsmap_get t x = Some n"
      using d e by (metis jsmap_get_def map_of_is_SomeI)
    then show "clean (diffPlaceholders s t)"
      using dom
      by (auto simp: clean_def diff_fields filter_empty_conv jsmap_get_None_iff jsmap_has_iff
          split: option.splits)
  qed
  from iff [OF assms, of targetMap] iff [OF assms, of sourceMap] show ?thesis by simp
qed

theorem diff_clean_iff_equal_witness:
  "distinct (map fst [(js ''x'', 2::nat)])
   \<and> clean (diffPlaceholders [(js ''x'', 2)] [(js ''x'', 2)])
   \<and> \<not> clean (diffPlaceholders [(js ''x'', 2)] [(js ''x'', 1)])
   \<and> \<not> (\<forall>t. jsmap_get [(js ''x'', 2::nat)] t = jsmap_get [(js ''x'', 1)] t)"
  using diff_clean_iff_equal [of "[(js ''x'', 2)]" "[(js ''x'', 1)]"]
  by (simp add: js_def diffPlaceholders_def jsmap_get_def jsmap_has_def clean_def)

section \<open>Invariants of the tokenizer\<close>

lemma pattern_literal_escapeRegExp: "pattern_literal (escapeRegExp pfx) = Some pfx"
proof (induction pfx)
  case Nil
  show ?case by simp
next
  case (Cons c cs)
  show ?case
  proof (cases "syntax_character c")
    case True
    with Cons.IH show ?thesis by simp
  next
    case False
    then have nb: "c \<noteq> BACKSLASH" by (auto simp: syntax_character_def)
    show ?thesis
    proof (cases "escapeRegExp cs")
      case Nil
      with Cons.IH have "cs = []" by simp
      with False show ?thesis by simp
    next
      case (Cons d ds)
      with Cons.IH False nb show ?thesis by simp
    qed
  qed
qed

lemma map_of_jsmap_set: "map_of (jsmap_set m k v) = (map_of m)(k \<mapsto> v)"
  by (induction m k v rule: jsmap_set.induct) auto

lemma keys_jsmap_set: "fst ` set (jsmap_set m k v) = insert k (fst ` set m)"
  by (induction m k v rule: jsmap_set.induct) auto

lemma distinct_jsmap_set: "distinct (map fst m) \<Longrightarrow> distinct (map fst (jsmap_set m k v))"
  by (induction m k v rule: jsmap_set.induct) (auto simp: keys_jsmap_set)

lemma set_jsmap_set: "set (jsmap_set m k v) \<subseteq> insert (k, v) (set m)"
  by (induction m k v rule: jsmap_set.induct) auto

lemma well_formed_increment: "well_formed m \<Longrightarrow> well_formed (increment m tok)"
  using set_jsmap_set [of m tok "(case jsmap_get m tok of None \<Rightarrow> 0 | Some c \<Rightarrow> c) + 1"]
  by (auto simp: well_formed_def increment_def distinct_jsmap_set)

lemma collect_braces_invariant:
  assumes "\<And>c tok. P c \<Longrightarrow> P (increment c tok)"
  shows "P counts \<Longrightarrow> P (collect_braces v i counts)"
proof (induction v i counts rule: collect_braces.induct)
  case (1 v lastIndex counts)
  show ?case
    using "1.prems" "1.IH" assms
    by (subst collect_braces.simps) (auto split: option.splits simp: Let_def)
qed

lemma collect_keyword_invariant:
  assumes "\<And>c tok. P c \<Longrightarrow> P (increment c tok)"
  shows "P counts \<Longrightarrow> P (collect_keyword pfx v i counts)"
proof (induction pfx v i counts rule: collect_keyword.induct)
  case (1 pfx v lastIndex counts)
  show ?case
    using "1.prems" "1.IH" assms
    by (subst collect_keyword.simps) (auto split: option.splits simp: Let_def)
qed

lemma collect_keywords_invariant:
  assumes "\<And>c tok. P c \<Longrightarrow> P (increment c tok)"
  shows "P counts \<Longrightarrow> P (collect_keywords ps v counts)"
  by (induction ps v counts rule: collect_keywords.induct)
     (auto intro: collect_keyword_invariant assms)

lemma well_formed_collectPlaceholders: "well_formed (collectPlaceholders val ps)"
proof (cases val)
  case (JStr v)
  have "well_formed []" by (simp add: well_formed_def)
  then have b: "well_formed (collect_braces v 0 [])"
    by (rule collect_braces_invariant [rotated]) (rule well_formed_increment)
  then have "well_formed (collect_keywords ps v (collect_braces v 0 []))"
    by (rule collect_keywords_invariant [rotated]) (rule well_formed_increment)
  with b JStr show ?thesis by (simp add: collectPlaceholders_def Let_def)
qed (simp_all add: collectPlaceholders_def well_formed_def)

text \<open>
  Claim C9. For every value and every list of keyword prefixes, every token stored in the
  result of \<open>collectPlaceholders\<close> has a count of at least 1 (no key is stored twice
  and no lookup gives 0), and a value that is not a string gives the empty map; the
  function has no failing branch.
\<close>

theorem collectPlaceholders_counts_positive:
  "(\<forall>(tok, n)\<in>set (collectPlaceholders val ps). 1 \<le> n)
   \<and> distinct (map fst (collectPlaceholders val ps))
   \<and> jsmap_get (collectPlaceholders val ps) t \<noteq> Some 0
   \<and> ((\<forall>s. val \<noteq> JStr s) \<longrightarrow> collectPlaceholders val ps = [])"
proof -
  have wf: "well_formed (collectPlaceholders val ps)"
    by (rule well_formed_collectPlaceholders)
  then have "jsmap_get (collectPlaceholders val ps) t \<noteq> Some 0"
    by (auto simp: well_formed_def jsmap_get_def dest!: map_of_SomeD)
  moreover have "(\<forall>s. val \<noteq> JStr s) \<longrightarrow> collectPlaceholders val ps = []"
    by (cases val) (simp_all add: collectPlaceholders_def)
  ultimately show ?thesis using wf by (simp add: well_formed_def)
qed

theorem collectPlaceholders_counts_positive_witness:
  "jsmap_get (collectPlaceholders (JStr (js ''{x}{x} arg7'')) [js ''arg'']) (js ''y'') \<noteq> Some 0
   \<and> collectPlaceholders (JStr (js ''{x}{x} arg7'')) [js ''arg''] = [(js ''x'', 2), (js ''arg7'', 1)]
   \<and> (\<forall>s. JNum 3 \<noteq> JStr s) \<and> collectPlaceholders (JNum 3) [js ''arg''] = []"
proof -
  have "collectPlaceholders (JStr (js ''{x}{x} arg7'')) [js ''arg''] = [(js ''x'', 2), (js ''arg7'', 1)]"
    by code_simp
  then show ?thesis
    using collectPlaceholders_counts_positive [of "JStr (js ''{x}{x} arg7'')" "[js ''arg'']" "js ''y''"]
      collectPlaceholders_counts_positive [of "JNum 3" "[js ''arg'']"]
    by simp
qed

section \<open>Properties of the comparator\<close>

lemma compare_entries_cong:
  assumes "\<forall>k\<in>fst ` set sp. map_of t1 k = map_of t2 k"
  shows "compare_entries sp t1 ps out = compare_entries sp t2 ps out"
  using assms
proof (induction sp arbitrary: out)
  case Nil
  show ?case by simp
next
  case (Cons p rest)
  obtain key sm where p: "p = (key, sm)" by (cases p)
  from Cons.prems p have k: "map_of t1 key = map_of t2 key"
    and r: "\<forall>k\<in>fst ` set rest. map_of t1 k = map_of t2 k"
    by auto
  from k have h: "has_property key t1 = has_property key t2"
    and g: "get_property t1 key = get_property t2 key"
    by (simp_all add: has_property_def get_property_def)
  have IH: "compare_entries rest t1 ps out' = compare_entries rest t2 ps out'" for out'
    using Cons.IH [OF r] .
  show ?case
    unfolding p compare_entries.simps h g IH ..
qed

lemma compare_entries_keys:
  "warning_key ` set (warnings (compare_entries sp t ps out))
     \<subseteq> warning_key ` set (warnings out) \<union> fst ` set sp
   \<and> issue_key ` set (errors (compare_entries sp t ps out))
     \<subseteq> issue_key ` set (errors out) \<union> fst ` set sp"
proof (induction sp arbitrary: out)
  case Nil
  show ?case by simp
next
  case (Cons p rest)
  obtain key sm where p: "p = (key, sm)" by (cases p)
  let ?target = "collectPlaceholders (get_property t key) ps"
  let ?d = "diffPlaceholders sm ?target"
  let ?e = "PlaceholderMismatch key ?d (formatPlaceholderMap sm) (formatPlaceholderMap ?target)"
  show ?case
  proof (cases "has_property key t")
    case False
    then have eq: "compare_entries (p # rest) t ps out
         = compare_entries rest t ps (out\<lparr>warnings := warnings out @ [MissingKey key]\<rparr>)"
      by (simp add: p)
    show ?thesis
      unfolding eq
      using Cons.IH [of "out\<lparr>warnings := warnings out @ [MissingKey key]\<rparr>"] p by auto
  next
    case h: True
    show ?thesis
    proof (cases "typeof (get_property t key) = js ''string''")
      case False
      with h have eq: "compare_entries (p # rest) t ps out
         = compare_entries rest t ps
             (out\<lparr>warnings := warnings out @ [NonString key (typeof (get_property t key))]\<rparr>)"
        by (simp add: p)
      show ?thesis
        unfolding eq
        using Cons.IH [of "out\<lparr>warnings := warnings out
            @ [NonString key (typeof (get_property t key))]\<rparr>"] p by auto
    next
      case ty: True
      show ?thesis
      proof (cases "clean ?d")
        case False
        with h ty have eq: "compare_entries (p # rest) t ps out
           = compare_entries rest t ps (out\<lparr>errors := errors out @ [?e]\<rparr>)"
          by (simp add: p clean_def Let_def)
        show ?thesis
          unfolding eq
          using Cons.IH [of "out\<lparr>errors := errors out @ [?e]\<rparr>"] p by auto
      next
        case True
        with h ty have eq: "compare_entries (p # rest) t ps out = compare_entries rest t ps out"
          by (simp add: p clean_def Let_def)
        show ?thesis
          unfolding eq using Cons.IH [of out] p by auto
      qed
    qed
  qed
qed

text \<open>
  Claim C8. The outcome of comparing a target document depends only on its entries at
  the keys of the source table: two documents that agree there give the same outcome, so
  an entry at another key changes nothing, and every warning and error is about a
  source key.
\<close>

theorem compareLocaleFile_source_keys_only:
  "((\<forall>k\<in>fst ` set sourcePlaceholders. map_of t1 k = map_of t2 k)
      \<longrightarrow> compareLocaleFile sourcePlaceholders t1 ps = compareLocaleFile sourcePlaceholders t2 ps)
   \<and> (k' \<notin> fst ` set sourcePlaceholders
      \<longrightarrow> compareLocaleFile sourcePlaceholders ((k', x) # t1) ps
          = compareLocaleFile sourcePlaceholders t1 ps)
   \<and> warning_key ` set (warnings (compareLocaleFile sourcePlaceholders t1 ps))
        \<subseteq> fst ` set sourcePlaceholders
   \<and> issue_key ` set (errors (compareLocaleFile sourcePlaceholders t1 ps))
        \<subseteq> fst ` set sourcePlaceholders"
proof -
  have a: "compareLocaleFile sourcePlaceholders t1 ps = compareLocaleFile sourcePlaceholders t2 ps"
    if "\<forall>k\<in>fst ` set sourcePlaceholders. map_of t1 k = map_of t2 k"
    unfolding compareLocaleFile_def using that by (rule compare_entries_cong)
  have b: "compareLocaleFile sourcePlaceholders ((k', x) # t1) ps
          = compareLocaleFile sourcePlaceholders t1 ps"
    if "k' \<notin> fst ` set sourcePlaceholders"
    unfolding compareLocaleFile_def
    by (rule compare_entries_cong) (use that in auto)
  from a b compare_entries_keys [of sourcePlaceholders t1 ps "\<lparr>errors = [], warnings = []\<rparr>"]
  show ?thesis by (simp add: compareLocaleFile_def)
qed

theorem compareLocaleFile_source_keys_only_witness:
  "js ''extra'' \<notin> fst ` set [(js ''a'', [(js ''name'', 1::nat)])]
   \<and> compareLocaleFile [(js ''a'', [(js ''name'', 1)])]
        [(js ''extra'', JStr (js ''{zzz}'')), (js ''a'', JStr (js ''Salut {name}''))] []
      = compareLocaleFile [(js ''a'', [(js ''name'', 1)])]
        [(js ''a'', JStr (js ''Salut {name}''))] []"
proof -
  have n: "js ''extra'' \<notin> fst ` set [(js ''a'', [(js ''name'', 1::nat)])]"
    by (simp add: js_def)
  with compareLocaleFile_source_keys_only [of "[(js ''a'', [(js ''name'', 1)])]"
        "[(js ''a'', JStr (js ''Salut {name}''))]" "[(js ''a'', JStr (js ''Salut {name}''))]" "[]"
        "js ''extra''" "JStr (js ''{zzz}'')"]
  show ?thesis by blast
qed

text \<open>
  Claim C5, at a source key that the target lacks and \<^verbatim>\<open>Object.prototype\<close> has: for
  the source \<^verbatim>\<open>{"constructor": "Builder"}\<close> and the target \<^verbatim>\<open>{}\<close> the comparator
  emits a warning of kind non-string with the type name \<^verbatim>\<open>function\<close>, and no warning
  of kind missing-key.
\<close>

theorem compareLocaleFile_inherited_key:
  "compareLocaleFile (buildSourcePlaceholderMap [(js ''constructor'', JStr (js ''Builder''))] []) [] []
     = \<lparr>errors = [], warnings = [NonString (js ''constructor'') (js ''function'')]\<rparr>"
  by code_simp

lemma typeof_string_iff: "typeof val = js ''string'' \<longleftrightarrow> (\<exists>s. val = JStr s)"
  by (cases val) (simp_all add: js_def)

lemma compare_entries_own_keys:
  assumes "own_keys_only sp"
  shows "compare_entries sp t ps out =
     \<lparr>errors = errors out @ concat (map (key_errors t ps) sp),
      warnings = warnings out @ concat (map (key_warnings t \<circ> fst) sp)\<rparr>"
  using assms
proof (induction sp arbitrary: out)
  case Nil
  show ?case by simp
next
  case (Cons p rest)
  obtain key sm where p: "p = (key, sm)" by (cases p)
  from Cons.prems p have nk: "key \<notin> set object_prototype_properties" and r: "own_keys_only rest"
    by (auto simp: own_keys_only_def)
  note IH = Cons.IH [OF r]
  show ?case
  proof (cases "map_of t key")
    case None
    with nk have h: "\<not> has_property key t" by (simp add: has_property_def)
    from None have kw: "key_warnings t key = [MissingKey key]"
      and ke: "key_errors t ps (key, sm) = []" by simp_all
    from h have "compare_entries (p # rest) t ps out
         = compare_entries rest t ps (out\<lparr>warnings := warnings out @ [MissingKey key]\<rparr>)"
      by (simp add: p)
    then show ?thesis
      by (simp add: IH p kw ke del: key_warnings.simps key_errors.simps)
  next
    case (Some val)
    then have h: "has_property key t" and g: "get_property t key = val"
      by (simp_all add: has_property_def get_property_def)
    show ?thesis
    proof (cases "\<exists>s. val = JStr s")
      case False
      then have ty: "typeof val \<noteq> js ''string''" by (simp add: typeof_string_iff)
      from False Some have kw: "key_warnings t key = [NonString key (typeof val)]"
        by (cases val) simp_all
      from False Some have ke: "key_errors t ps (key, sm) = []"
        by (cases val) simp_all
      from h g ty have "compare_entries (p # rest) t ps out
         = compare_entries rest t ps (out\<lparr>warnings := warnings out @ [NonString key (typeof val)]\<rparr>)"
        by (simp add: p)
      then show ?thesis
        by (simp add: IH p kw ke del: key_warnings.simps key_errors.simps)
    next
      case True
      then obtain s where s: "val = JStr s" by blast
      then have ty: "typeof val = js ''string''" by simp
      from s Some have kw: "key_warnings t key = []" by simp
      let ?tm = "collectPlaceholders (JStr s) ps"
      let ?d = "diffPlaceholders sm ?tm"
      show ?thesis
      proof (cases "clean ?d")
        case True
        with s Some have ke: "key_errors t ps (key, sm) = []" by (simp add: Let_def)
        from True h g ty s have "compare_entries (p # rest) t ps out = compare_entries rest t ps out"
          by (simp add: p clean_def Let_def)
        then show ?thesis
          by (simp add: IH p kw ke del: key_warnings.simps key_errors.simps)
      next
        case False
        with s Some have ke: "key_errors t ps (key, sm) =
           [PlaceholderMismatch key ?d (formatPlaceholderMap sm) (formatPlaceholderMap ?tm)]"
          by (simp add: Let_def)
        from False h g ty s have "compare_entries (p # rest) t ps out
           = compare_entries rest t ps (out\<lparr>errors := errors out
               @ [PlaceholderMismatch key ?d (formatPlaceholderMap sm) (formatPlaceholderMap ?tm)]\<rparr>)"
          by (simp add: p clean_def Let_def)
        then show ?thesis
          by (simp add: IH p kw ke del: key_warnings.simps key_errors.simps)
      qed
    qed
  qed
qed

lemma compareLocaleFile_own_keys:
  assumes "own_keys_only sp"
  shows "compareLocaleFile sp t ps =
     \<lparr>errors = concat (map (key_errors t ps) sp),
      warnings = concat (map (key_warnings t \<circ> fst) sp)\<rparr>"
  unfolding compareLocaleFile_def compare_entries_own_keys [OF assms] by simp

section \<open>Properties of the aggregator\<close>

lemma find_regular_file:
  "(find (\<lambda>entry. isFile entry \<and> name entry = nm) es = None) \<longleftrightarrow> \<not> regular_file es nm"
  by (auto simp: find_None_iff regular_file_def)

lemma list_ex_regular_file:
  "list_ex (\<lambda>entry. isFile entry \<and> name entry = nm) es \<longleftrightarrow> regular_file es nm"
  by (simp add: list_ex_iff regular_file_def)

lemma find_first:
  assumes "xs = pre @ c # post" and "P c" and "\<forall>x\<in>set pre. \<not> P x"
  shows "find P xs = Some c"
  using assms by (induction pre arbitrary: xs) auto

lemma sublist_in_append: "sublist c ys \<Longrightarrow> sublist c (xs @ ys @ zs)"
proof -
  assume "sublist c ys"
  then obtain ps ss where "ys = ps @ c @ ss" by (auto simp: sublist_def)
  then have "xs @ ys @ zs = (xs @ ps) @ c @ (ss @ zs)" by simp
  then show ?thesis unfolding sublist_def by blast
qed

lemma sublist_join: "c \<in> set xs \<Longrightarrow> sublist c (join xs sep)"
proof (induction xs sep rule: join.induct)
  case (1 sep)
  then show ?case by simp
next
  case (2 x sep)
  then show ?case by simp
next
  case (3 x y ys sep)
  show ?case
  proof (cases "c = x")
    case True
    then show ?thesis by simp
  next
    case False
    with "3.prems" have "c \<in> set (y # ys)" by simp
    then have "sublist c (join (y # ys) sep)" by (rule "3.IH")
    then have "sublist c ((x @ sep) @ join (y # ys) sep @ [])" by (rule sublist_in_append)
    then show ?thesis by simp
  qed
qed

lemma resolve_explicit_found:
  assumes "ov \<noteq> []" and "regular_file es ov"
  shows "resolveSourceFile es dir (Some ov) = Inr ov"
proof -
  from assms(2) have "find (\<lambda>entry. isFile entry \<and> name entry = ov) es \<noteq> None"
    by (simp add: find_regular_file)
  then obtain e where "find (\<lambda>entry. isFile entry \<and> name entry = ov) es = Some e"
    by blast
  with assms(1) show ?thesis by (simp add: resolveSourceFile_def)
qed

lemma resolve_explicit_missing:
  assumes "ov \<noteq> []" and "\<not> regular_file es ov"
  shows "\<exists>msg. resolveSourceFile es dir (Some ov) = Inl (Error msg) \<and> sublist ov msg"
proof -
  define before where "before = js ''Source locale file \"''"
  define after where "after = js ''\" not found in '' @ dir"
  from assms(2) have "find (\<lambda>entry. isFile entry \<and> name entry = ov) es = None"
    by (simp add: find_regular_file)
  with assms(1) have "resolveSourceFile es dir (Some ov) = Inl (Error (before @ ov @ after))"
    by (simp add: resolveSourceFile_def before_def after_def)
  moreover have "sublist ov (before @ ov @ after)" by (rule sublist_appendI)
  ultimately show ?thesis by blast
qed

lemma resolve_default_found:
  assumes "DEFAULT_SOURCE_CANDIDATES = pre @ c # post" and "regular_file es c"
    and "\<forall>c'\<in>set pre. \<not> regular_file es c'"
  shows "resolveSourceFile es dir None = Inr c"
proof -
  have "find (\<lambda>nm. regular_file es nm) DEFAULT_SOURCE_CANDIDATES = Some c"
    using assms by (rule find_first)
  then show ?thesis by (simp add: resolveSourceFile_def list_ex_regular_file)
qed

lemma resolve_default_missing:
  assumes "\<forall>c'\<in>set DEFAULT_SOURCE_CANDIDATES. \<not> regular_file es c'"
  shows "\<exists>msg. resolveSourceFile es dir None = Inl (Error msg)
           \<and> (\<forall>c'\<in>set DEFAULT_SOURCE_CANDIDATES. sublist c' msg)"
proof -
  define before where "before = js ''Source locale file not found in '' @ dir
                           @ js ''. Provide --source or add one of: ''"
  define listed where "listed = join DEFAULT_SOURCE_CANDIDATES (js '', '')"
  from assms have "find (\<lambda>nm. regular_file es nm) DEFAULT_SOURCE_CANDIDATES = None"
    by (simp add: find_None_iff)
  then have "resolveSourceFile es dir None = Inl (Error (before @ listed))"
    by (simp add: resolveSourceFile_def list_ex_regular_file before_def listed_def)
  moreover have "sublist c' (before @ listed)" if "c' \<in> set DEFAULT_SOURCE_CANDIDATES" for c'
  proof -
    from that have "sublist c' listed" unfolding listed_def by (rule sublist_join)
    then have "sublist c' (before @ listed @ [])" by (rule sublist_in_append)
    then show ?thesis by simp
  qed
  ultimately show ?thesis by blast
qed

lemma resolve_failure_ends_run:
  assumes "readdir fs = Inr es" and "resolveSourceFile es (cwd opts) (source opts) = Inl err"
  shows "checkPlaceholders fs opts = Inl err"
  using assms by (simp add: checkPlaceholders_def)

text \<open>
  Claim C7. A non-empty explicit source name is returned when the listing has it as a
  regular file, and the run fails with an error otherwise; without an explicit name the
  first default candidate that is a regular file is returned, and when there is none the
  run fails with an error whose message names every candidate. A failure of the
  resolution is the failure of \<open>checkPlaceholders\<close>.
\<close>

theorem resolveSourceFile_policy:
  "(ov \<noteq> [] \<and> regular_file es ov \<longrightarrow> resolveSourceFile es dir (Some ov) = Inr ov)
   \<and> (ov \<noteq> [] \<and> \<not> regular_file es ov
        \<longrightarrow> (\<exists>msg. resolveSourceFile es dir (Some ov) = Inl (Error msg) \<and> sublist ov msg))
   \<and> (DEFAULT_SOURCE_CANDIDATES = pre @ c # post \<and> regular_file es c
        \<and> (\<forall>c'\<in>set pre. \<not> regular_file es c')
        \<longrightarrow> resolveSourceFile es dir None = Inr c)
   \<and> ((\<forall>c'\<in>set DEFAULT_SOURCE_CANDIDATES. \<not> regular_file es c')
        \<longrightarrow> (\<exists>msg. resolveSourceFile es dir None = Inl (Error msg)
               \<and> (\<forall>c'\<in>set DEFAULT_SOURCE_CANDIDATES. sublist c' msg)))
   \<and> (readdir fs = Inr es \<and> resolveSourceFile es (cwd opts) (source opts) = Inl err
        \<longrightarrow> checkPlaceholders fs opts = Inl err)"
  using resolve_explicit_found [of ov es dir] resolve_explicit_missing [of ov es dir]
    resolve_default_found [of pre c post es dir] resolve_default_missing [of es dir]
    resolve_failure_ends_run [of fs es opts err]
  by blast

theorem resolveSourceFile_policy_witness:
  "DEFAULT_SOURCE_CANDIDATES = [js ''zh-cn.json'', js ''zhCN.json''] @ js ''zh-CN.json'' # [js ''zh_CN.json'']
   \<and> regular_file [\<lparr>name = js ''en.json'', isFile = True\<rparr>, \<lparr>name = js ''zh-CN.json'', isFile = True\<rparr>]
        (js ''zh-CN.json'')
   \<and> \<not> regular_file [\<lparr>name = js ''en.json'', isFile = True\<rparr>, \<lparr>name = js ''zh-CN.json'', isFile = True\<rparr>]
        (js ''zh-cn.json'')
   \<and> \<not> regular_file [\<lparr>name = js ''en.json'', isFile = True\<rparr>, \<lparr>name = js ''zh-CN.json'', isFile = True\<rparr>]
        (js ''zhCN.json'')
   \<and> resolveSourceFile [\<lparr>name = js ''en.json'', isFile = True\<rparr>, \<lparr>name = js ''zh-CN.json'', isFile = True\<rparr>]
        (js ''/locales'') None = Inr (js ''zh-CN.json'')
   \<and> js ''en.json'' \<noteq> []
   \<and> resolveSourceFile [\<lparr>name = js ''en.json'', isFile = True\<rparr>, \<lparr>name = js ''zh-CN.json'', isFile = True\<rparr>]
        (js ''/locales'') (Some (js ''en.json'')) = Inr (js ''en.json'')"
proof -
  let ?es = "[\<lparr>name = js ''en.json'', isFile = True\<rparr>, \<lparr>name = js ''zh-CN.json'', isFile = True\<rparr>]"
  have 1: "DEFAULT_SOURCE_CANDIDATES = [js ''zh-cn.json'', js ''zhCN.json''] @ js ''zh-CN.json'' # [js ''zh_CN.json'']"
    by (simp add: DEFAULT_SOURCE_CANDIDATES_def)
  have 2: "regular_file ?es (js ''zh-CN.json'')"
    by (simp add: regular_file_def)
  have 3: "\<forall>c'\<in>set [js ''zh-cn.json'', js ''zhCN.json'']. \<not> regular_file ?es c'"
    by (simp add: regular_file_def js_def)
  have 4: "js ''en.json'' \<noteq> []" by (simp add: js_def)
  have 5: "regular_file ?es (js ''en.json'')"
    by (simp add: regular_file_def)
  from 3 have 6: "\<not> regular_file ?es (js ''zh-cn.json'')" "\<not> regular_file ?es (js ''zhCN.json'')"
    by simp_all
  from 1 2 3 4 5 6
    resolveSourceFile_policy [of "js ''en.json''" ?es "js ''/locales''"
      "[js ''zh-cn.json'', js ''zhCN.json'']" "js ''zh-CN.json''" "[js ''zh_CN.json'']"]
  show ?thesis by blast
qed





section \<open>What the tokenizer counts\<close>

lemma drop_split:
  assumes "s + n \<le> length v"
  shows "drop s v = take n (drop s v) @ drop (s + n) v"
  by (metis add.commute append_take_drop_id drop_drop)

lemma brace_match_drop:
  assumes "brace_match v s body"
  shows "drop s v = LBRACE # body @ RBRACE # drop (s + (length body + 2)) v"
proof -
  from assms have e: "s + (length body + 2) \<le> length v"
    and t: "take (length body + 2) (drop s v) = LBRACE # body @ [RBRACE]"
    by (simp_all add: brace_match_def)
  from e have "drop s v = take (length body + 2) (drop s v) @ drop (s + (length body + 2)) v"
    by (rule drop_split)
  with t show ?thesis by simp
qed

lemma placeholder_match_iff: "placeholder_match v s = Some body \<longleftrightarrow> brace_match v s body"
proof
  assume a: "placeholder_match v s = Some body"
  define xs where "xs = drop (Suc s) v"
  define P where "P = (\<lambda>c. c \<noteq> LBRACE \<and> c \<noteq> RBRACE)"
  from a have s: "s < length v" and l: "v ! s = LBRACE"
    and b: "body = takeWhile P xs"
    and ne: "body \<noteq> []"
    and e: "Suc s + length body < length v" and r: "v ! (Suc s + length body) = RBRACE"
    by (auto simp: placeholder_match_def char_at_def Let_def xs_def P_def split: if_splits)
  have nb: "LBRACE \<notin> set body" "RBRACE \<notin> set body"
    unfolding b by (auto simp: P_def dest: set_takeWhileD)
  have lx: "length body < length xs" using e by (simp add: xs_def)
  have xr: "xs ! length body = RBRACE" using r e by (simp add: xs_def)
  have tb: "take (length body) xs = body"
    unfolding b by (rule takeWhile_eq_take [symmetric])
  have "take (Suc (length body)) xs = take (length body) xs @ [xs ! length body]"
    using lx by (rule take_Suc_conv_app_nth)
  then have tx: "take (Suc (length body)) xs = body @ [RBRACE]"
    by (simp only: tb xr)
  have "drop s v = LBRACE # xs"
    using Cons_nth_drop_Suc [OF s] l by (simp add: xs_def)
  then have "take (length body + 2) (drop s v) = LBRACE # take (Suc (length body)) xs"
    by simp
  then have "take (length body + 2) (drop s v) = LBRACE # body @ [RBRACE]"
    by (simp only: tx)
  with ne nb e show "brace_match v s body" by (simp add: brace_match_def)
next
  assume m: "brace_match v s body"
  then have ne: "body \<noteq> []" and nb: "LBRACE \<notin> set body" "RBRACE \<notin> set body"
    and e: "s + length body + 2 \<le> length v"
    by (simp_all add: brace_match_def)
  define rest where "rest = drop (s + (length body + 2)) v"
  from brace_match_drop [OF m] have d: "drop s v = LBRACE # body @ RBRACE # rest"
    by (simp add: rest_def)
  from e have s: "s < length v" by simp
  then have c: "drop s v = v ! s # drop (Suc s) v"
    by (rule Cons_nth_drop_Suc [symmetric])
  from c d have l: "v ! s = LBRACE" and x: "drop (Suc s) v = body @ RBRACE # rest"
    by simp_all
  have "\<And>x. x \<in> set body \<Longrightarrow> x \<noteq> LBRACE \<and> x \<noteq> RBRACE"
    using nb by auto
  then have "takeWhile (\<lambda>c. c \<noteq> LBRACE \<and> c \<noteq> RBRACE) (body @ RBRACE # rest)
      = body @ takeWhile (\<lambda>c. c \<noteq> LBRACE \<and> c \<noteq> RBRACE) (RBRACE # rest)"
    by (rule takeWhile_append2)
  then have tw: "takeWhile (\<lambda>c. c \<noteq> LBRACE \<and> c \<noteq> RBRACE) (body @ RBRACE # rest) = body"
    by simp
  have "v ! (Suc s + length body) = drop (Suc s) v ! length body"
    using e by simp
  also have "\<dots> = RBRACE" by (simp add: x)
  finally have r: "v ! (Suc s + length body) = RBRACE" .
  from s l ne e r show "placeholder_match v s = Some body"
    by (simp add: placeholder_match_def char_at_def Let_def x tw)
qed

lemma brace_match_inside:
  assumes "brace_match v s body" and "s < j" and "j < s + length body + 2"
  shows "v ! j \<noteq> LBRACE"
proof -
  from assms(1) have nb: "LBRACE \<notin> set body"
    and e: "s + length body + 2 \<le> length v"
    by (simp_all add: brace_match_def)
  define rest where "rest = drop (s + (length body + 2)) v"
  from brace_match_drop [OF assms(1)] have d: "drop s v = LBRACE # body @ RBRACE # rest"
    by (simp add: rest_def)
  from assms(2) obtain k where k: "j = s + Suc k"
    by (metis less_imp_Suc_add add_Suc_right)
  with assms(3) have kl: "k \<le> length body" by simp
  have "v ! j = drop s v ! Suc k" using e k kl by simp
  also have "\<dots> = (body @ RBRACE # rest) ! k" by (simp add: d)
  finally have vj: "v ! j = (body @ RBRACE # rest) ! k" .
  show ?thesis
  proof (cases "k < length body")
    case True
    then have "v ! j \<in> set body" by (simp add: vj nth_append)
    with nb show ?thesis by auto
  next
    case False
    with kl have "k = length body" by simp
    then have "v ! j = RBRACE" by (simp add: vj)
    then show ?thesis by (simp add: LBRACE_def RBRACE_def)
  qed
qed

lemma regexp_exec_None:
  "regexp_exec match_at v i = None \<Longrightarrow> i \<le> j \<Longrightarrow> j \<le> length v \<Longrightarrow> match_at v j = None"
proof (induction match_at v i rule: regexp_exec.induct)
  case (1 match_at v i)
  from "1.prems"(2,3) have le: "\<not> length v < i" by simp
  with "1.prems"(1) have here: "match_at v i = None"
    by (simp add: regexp_exec.simps [of match_at v i] split: option.splits)
  show ?case
  proof (cases "j = i")
    case True
    with here show ?thesis by simp
  next
    case False
    with "1.prems"(2) have "Suc i \<le> j" by simp
    moreover from "1.prems"(1) le here have "regexp_exec match_at v (Suc i) = None"
      by (simp add: regexp_exec.simps [of match_at v i])
    ultimately show ?thesis
      using "1.IH" [OF le here] "1.prems"(3) by simp
  qed
qed

lemma regexp_exec_first:
  "regexp_exec match_at v i = Some (s, m) \<Longrightarrow> i \<le> j \<Longrightarrow> j < s \<Longrightarrow> match_at v j = None"
proof (induction match_at v i rule: regexp_exec.induct)
  case (1 match_at v i)
  from "1.prems"(1) have le: "\<not> length v < i"
    by (auto simp: regexp_exec.simps [of match_at v i] split: if_splits)
  have here: "match_at v i = None"
  proof (cases "match_at v i")
    case (Some m')
    with "1.prems"(1) le have "s = i"
      by (simp add: regexp_exec.simps [of match_at v i])
    with "1.prems"(2,3) show ?thesis by simp
  qed simp
  show ?case
  proof (cases "j = i")
    case True
    with here show ?thesis by simp
  next
    case False
    with "1.prems"(2) have "Suc i \<le> j" by simp
    moreover from "1.prems"(1) le here have "regexp_exec match_at v (Suc i) = Some (s, m)"
      by (simp add: regexp_exec.simps [of match_at v i])
    ultimately show ?thesis
      using "1.IH" [OF le here] "1.prems"(3) by simp
  qed
qed

lemma placeholder_match_beyond: "length v \<le> s \<Longrightarrow> placeholder_match v s = None"
  by (simp add: placeholder_match_def char_at_def)

lemma count_of_increment:
  "count_of (increment m tok) t = count_of m t + (if tok = t then 1 else 0)"
  by (simp add: count_of_def increment_def jsmap_get_def map_of_jsmap_set split: option.splits)

lemma collect_braces_stop:
  "regexp_exec placeholder_match v i = None \<Longrightarrow> collect_braces v i counts = counts"
  by (simp add: collect_braces.simps [of v i])

lemma collect_braces_step:
  assumes "regexp_exec placeholder_match v i = Some (s, raw)"
  shows "collect_braces v i counts =
     collect_braces v (s + (length raw + 2))
       (case counted_brace_token v s of None \<Rightarrow> counts | Some tok \<Rightarrow> increment counts tok)"
proof -
  from assms have m: "placeholder_match v s = Some raw"
    by (auto dest: regexp_exec_bounds)
  show ?thesis
    by (simp add: collect_braces.simps [of v i] assms counted_brace_token_def m Let_def)
qed

lemma counted_positions_split:
  assumes "regexp_exec placeholder_match v i = Some (s, raw)"
  shows "{j. i \<le> j \<and> counted_brace_token v j = Some t}
       = (if counted_brace_token v s = Some t then {s} else {})
         \<union> {j. s + (length raw + 2) \<le> j \<and> counted_brace_token v j = Some t}"
proof -
  from assms have le: "i \<le> s" and m: "placeholder_match v s = Some raw"
    by (auto dest: regexp_exec_bounds)
  have before: "counted_brace_token v j = None" if "i \<le> j" "j < s" for j
    using regexp_exec_first [OF assms that] by (simp add: counted_brace_token_def)
  have inside: "counted_brace_token v j = None" if "s < j" "j < s + (length raw + 2)" for j
  proof -
    from m have bm: "brace_match v s raw" by (simp add: placeholder_match_iff)
    from that have "v ! j \<noteq> LBRACE"
      by (intro brace_match_inside [OF bm]) simp_all
    then have "placeholder_match v j = None"
      by (simp add: placeholder_match_def char_at_def)
    then show ?thesis by (simp add: counted_brace_token_def)
  qed
  show ?thesis
  proof (intro set_eqI iffI)
    fix j assume "j \<in> {j. i \<le> j \<and> counted_brace_token v j = Some t}"
    then have j: "i \<le> j" "counted_brace_token v j = Some t" by simp_all
    with before [of j] inside [of j] have "j = s \<or> s + (length raw + 2) \<le> j"
      by (metis not_less option.distinct(1) linorder_neqE_nat)
    with j show "j \<in> (if counted_brace_token v s = Some t then {s} else {})
         \<union> {j. s + (length raw + 2) \<le> j \<and> counted_brace_token v j = Some t}"
      by auto
  next
    fix j assume "j \<in> (if counted_brace_token v s = Some t then {s} else {})
         \<union> {j. s + (length raw + 2) \<le> j \<and> counted_brace_token v j = Some t}"
    with le show "j \<in> {j. i \<le> j \<and> counted_brace_token v j = Some t}"
      by (auto split: if_splits)
  qed
qed

lemma counted_positions_finite: "finite {j. P j \<and> counted_brace_token v j = Some t}"
proof -
  have "{j. P j \<and> counted_brace_token v j = Some t} \<subseteq> {..<length v}"
    using placeholder_match_beyond [of v]
    by (auto simp: counted_brace_token_def split: option.splits)
  then show ?thesis by (rule finite_subset) simp
qed

lemma collect_braces_count:
  "count_of (collect_braces v i counts) t
     = count_of counts t + card {j. i \<le> j \<and> counted_brace_token v j = Some t}"
proof (induction "Suc (length v) - i" arbitrary: i counts rule: less_induct)
  case less
  show ?case
  proof (cases "regexp_exec placeholder_match v i")
    case None
    have "counted_brace_token v j = None" if "i \<le> j" for j
    proof (cases "j \<le> length v")
      case True
      with regexp_exec_None [OF None that] show ?thesis
        by (simp add: counted_brace_token_def)
    next
      case False
      then show ?thesis
        by (simp add: counted_brace_token_def placeholder_match_beyond)
    qed
    then have "{j. i \<le> j \<and> counted_brace_token v j = Some t} = {}" by auto
    then have "card {j. i \<le> j \<and> counted_brace_token v j = Some t} = 0"
      by (simp only: card.empty)
    with None show ?thesis by (simp only: collect_braces_stop add_0_right)
  next
    case (Some p)
    obtain s raw where p: "p = (s, raw)" by (cases p)
    with Some have ex: "regexp_exec placeholder_match v i = Some (s, raw)" by simp
    let ?e = "s + (length raw + 2)"
    let ?counts = "case counted_brace_token v s of None \<Rightarrow> counts
                   | Some tok \<Rightarrow> increment counts tok"
    let ?rest = "{j. ?e \<le> j \<and> counted_brace_token v j = Some t}"
    have "Suc (length v) - ?e < Suc (length v) - i"
      using ex by (rule placeholder_exec_progress)
    then have IH: "count_of (collect_braces v ?e ?counts) t = count_of ?counts t + card ?rest"
      by (rule less.hyps)
    have fin: "finite ?rest" by (rule counted_positions_finite)
    have notin: "s \<notin> ?rest" by simp
    have c: "count_of ?counts t
        = count_of counts t + (if counted_brace_token v s = Some t then 1 else 0)"
      by (cases "counted_brace_token v s") (simp_all add: count_of_increment)
    have "card {j. i \<le> j \<and> counted_brace_token v j = Some t}
        = (if counted_brace_token v s = Some t then 1 else 0) + card ?rest"
      unfolding counted_positions_split [OF ex] using fin notin by simp
    with IH c show ?thesis
      by (simp add: collect_braces_step [OF ex])
  qed
qed

lemma counted_brace_token_iff:
  "counted_brace_token v s = Some t
     \<longleftrightarrow> (\<exists>body. accepted_match v s body \<and> trim body = t \<and> t \<noteq> [])"
proof (cases "placeholder_match v s")
  case None
  then have "\<not> brace_match v s body" for body
    by (simp add: placeholder_match_iff [symmetric])
  with None show ?thesis by (simp add: counted_brace_token_def accepted_match_def)
next
  case (Some raw)
  then have bm: "brace_match v s raw" by (simp add: placeholder_match_iff)
  have uniq: "body = raw" if "brace_match v s body" for body
    using that Some by (simp add: placeholder_match_iff [symmetric])
  from bm have s: "s < length v" by (simp add: brace_match_def)
  have e1: "(0 < s \<and> char_at v (s - 1) = Some BACKSLASH) \<longleftrightarrow> escaped v s"
    using s by (auto simp: char_at_def escaped_def)
  have e2: "(0 < s \<and> char_at v (s - 1) = Some LBRACE) \<longleftrightarrow> doubled_open v s"
    using s by (auto simp: char_at_def doubled_open_def)
  have e3: "(s + (length raw + 2) < length v \<and> char_at v (s + (length raw + 2)) = Some RBRACE)
      \<longleftrightarrow> doubled_close v (s + length raw + 2)"
    by (auto simp: char_at_def doubled_close_def add.assoc)
  have "counted_brace_token v s =
      (if escaped v s \<or> doubled_open v s \<or> doubled_close v (s + length raw + 2) \<or> trim raw = []
       then None else Some (trim raw))"
    by (simp only: counted_brace_token_def Some option.case e1 e2 e3)
  then have "counted_brace_token v s = Some t
     \<longleftrightarrow> (accepted_match v s raw \<and> trim raw = t \<and> t \<noteq> [])"
    using bm by (auto simp: accepted_match_def)
  also have "\<dots> \<longleftrightarrow> (\<exists>body. accepted_match v s body \<and> trim body = t \<and> t \<noteq> [])"
    using uniq by (auto simp: accepted_match_def)
  finally show ?thesis .
qed

lemma collectPlaceholders_no_keywords:
  "collectPlaceholders (JStr v) [] = collect_braces v 0 []"
  by (simp add: collectPlaceholders_def)

lemma brace_pass_count:
  "count_of (collect_braces v 0 []) t
     = card {s. \<exists>body. accepted_match v s body \<and> trim body = t \<and> t \<noteq> []}"
proof -
  have "count_of (collect_braces v 0 []) t
      = count_of [] t + card {j. 0 \<le> j \<and> counted_brace_token v j = Some t}"
    by (rule collect_braces_count)
  then show ?thesis
    by (simp add: count_of_def jsmap_get_def counted_brace_token_iff)
qed

lemma trim_ends:
  assumes "trim s \<noteq> []"
  shows "\<not> is_whitespace (hd (trim s)) \<and> \<not> is_whitespace (last (trim s))"
proof -
  define ys where "ys = dropWhile is_whitespace s"
  define zs where "zs = dropWhile is_whitespace (rev ys)"
  have t: "trim s = rev zs" by (simp add: trim_def ys_def zs_def)
  with assms have z: "zs \<noteq> []" by simp
  then have y: "ys \<noteq> []" by (auto simp: zs_def)
  have "rev ys = takeWhile is_whitespace (rev ys) @ zs"
    by (simp add: zs_def)
  then have "last (rev ys) = last zs"
    using z by (metis last_appendR)
  then have "last zs = hd ys" using y by (simp add: last_rev)
  moreover have "\<not> is_whitespace (hd ys)"
    using y unfolding ys_def by (rule hd_dropWhile)
  moreover have "\<not> is_whitespace (hd zs)"
    using z unfolding zs_def by (rule hd_dropWhile)
  ultimately show ?thesis
    using z by (simp add: t hd_rev last_rev)
qed

lemma stored_token_counted:
  assumes "well_formed m" and "tok \<in> fst ` set m"
  shows "1 \<le> count_of m tok"
proof -
  from assms(2) obtain n where "jsmap_get m tok = Some n"
    by (cases "jsmap_get m tok") (auto simp: jsmap_get_None_iff)
  moreover from this have "(tok, n) \<in> set m"
    by (auto simp: jsmap_get_def dest: map_of_SomeD)
  ultimately show ?thesis
    using assms(1) by (auto simp: well_formed_def count_of_def)
qed

section \<open>What the keyword pass counts\<close>

lemma keyword_match_iff:
  "keyword_match p v s = Some tok \<longleftrightarrow> keyword_occurrence p v s \<and> tok = keyword_text p v s"
proof -
  have "takeWhile is_digit (drop (s + length p) v) \<noteq> []
      \<longleftrightarrow> s + length p < length v \<and> is_digit (v ! (s + length p))"
    by (auto simp: takeWhile_eq_Nil_iff hd_drop_conv_nth)
  then show ?thesis
    by (auto simp: keyword_match_def keyword_occurrence_def keyword_text_def Let_def)
qed

lemma keyword_match_beyond: "length v \<le> s \<Longrightarrow> keyword_match p v s = None"
  by (simp add: keyword_match_def)

lemma keyword_occurrence_nth:
  assumes "keyword_occurrence p v s" and "k < length p"
  shows "v ! (s + k) = p ! k"
proof -
  from assms(1) have t: "take (length p) (drop s v) = p" and l: "s + length p < length v"
    by (simp_all add: keyword_occurrence_def)
  have "p ! k = take (length p) (drop s v) ! k" by (simp only: t)
  also have "\<dots> = v ! (s + k)" using assms(2) l by simp
  finally show ?thesis by simp
qed

lemma keyword_text_digits:
  assumes "s + length p + k < s + length (keyword_text p v s)"
  shows "is_digit (v ! (s + length p + k))"
proof -
  define ds where "ds = takeWhile is_digit (drop (s + length p) v)"
  from assms have k: "k < length ds" by (simp add: keyword_text_def ds_def)
  have "ds ! k = drop (s + length p) v ! k"
    using k unfolding ds_def by (rule takeWhile_nth)
  moreover have "length ds \<le> length (drop (s + length p) v)"
    unfolding ds_def by (rule length_takeWhile_le)
  ultimately have "ds ! k = v ! (s + length p + k)" using k by simp
  moreover have "ds ! k \<in> set ds" using k by simp
  then have "is_digit (ds ! k)" unfolding ds_def by (rule set_takeWhileD [THEN conjunct2])
  ultimately show ?thesis by simp
qed

lemma overlap_free_non_overlapping:
  assumes of: "overlap_free p"
  shows "non_overlapping p v"
  unfolding non_overlapping_def
proof (intro allI impI notI)
  fix s j
  assume a: "keyword_occurrence p v s \<and> s < j \<and> j < s + length (keyword_text p v s)"
    and oj: "keyword_occurrence p v j"
  from a have os: "keyword_occurrence p v s" and sj: "s < j"
    and je: "j < s + length (keyword_text p v s)" by simp_all
  from of have pn: "p \<noteq> []" and hd: "\<not> is_digit (hd p)"
    and per: "\<And>d. 1 \<le> d \<Longrightarrow> d < length p \<Longrightarrow> take (length p - d) p = drop d p
                \<Longrightarrow> \<not> is_digit (p ! (length p - d))"
    by (auto simp: overlap_free_def)
  from os have dg: "is_digit (v ! (s + length p))" by (simp add: keyword_occurrence_def)
  show False
  proof (cases "j < s + length p")
    case True
    define d where "d = j - s"
    from True sj have d: "1 \<le> d" "d < length p" "j = s + d" by (simp_all add: d_def)
    have "take (length p - d) p = drop d p"
    proof (rule nth_equalityI)
      show "length (take (length p - d) p) = length (drop d p)" by simp
    next
      fix k assume "k < length (take (length p - d) p)"
      then have k: "k < length p - d" by simp
      then have "p ! k = v ! (j + k)"
        using keyword_occurrence_nth [OF oj, of k] by simp
      also have "\<dots> = v ! (s + (d + k))" by (simp add: d(3) add.assoc)
      also have "\<dots> = p ! (d + k)"
        using k by (intro keyword_occurrence_nth [OF os]) simp
      finally show "take (length p - d) p ! k = drop d p ! k"
        using k by simp
    qed
    moreover have "is_digit (p ! (length p - d))"
    proof -
      have "p ! (length p - d) = v ! (j + (length p - d))"
        using d by (intro keyword_occurrence_nth [OF oj, symmetric]) simp
      also have "j + (length p - d) = s + length p" using d by simp
      finally show ?thesis using dg by simp
    qed
    ultimately show False using per [OF d(1,2)] by simp
  next
    case False
    define k where "k = j - (s + length p)"
    from False have jk: "j = s + length p + k" by (simp add: k_def)
    with je have "is_digit (v ! j)"
      using keyword_text_digits [of s p k v] by simp
    moreover from pn have "v ! (j + 0) = p ! 0"
      by (intro keyword_occurrence_nth [OF oj]) simp
    ultimately have "is_digit (p ! 0)" by simp
    with hd pn show False by (simp add: hd_conv_nth)
  qed
qed

lemma digit_free_overlap_free: "p \<noteq> [] \<Longrightarrow> digit_free p \<Longrightarrow> overlap_free p"
  by (auto simp: overlap_free_def digit_free_def)

lemma collect_keyword_stop:
  "regexp_exec (keyword_match p) v i = None \<Longrightarrow> collect_keyword p v i counts = counts"
  by (simp add: collect_keyword.simps [of p v i])

lemma collect_keyword_step:
  assumes "regexp_exec (keyword_match p) v i = Some (s, tok)"
  shows "collect_keyword p v i counts =
     collect_keyword p v (s + length tok)
       (case counted_keyword_token p v s of None \<Rightarrow> counts | Some t \<Rightarrow> increment counts t)"
proof -
  from assms have m: "keyword_match p v s = Some tok"
    by (auto dest: regexp_exec_bounds)
  show ?thesis
    by (simp add: collect_keyword.simps [of p v i] assms counted_keyword_token_def m Let_def)
qed

lemma counted_keyword_token_iff:
  "counted_keyword_token p v s = Some t
     \<longleftrightarrow> keyword_occurrence p v s
         \<and> \<not> brace_wrapped v s (s + length (keyword_text p v s))
         \<and> keyword_text p v s = t"
proof (cases "keyword_match p v s")
  case None
  then have "\<not> keyword_occurrence p v s"
    using keyword_match_iff [of p v s "keyword_text p v s"] by simp
  with None show ?thesis by (simp add: counted_keyword_token_def)
next
  case (Some tok)
  then have occ: "keyword_occurrence p v s" and tok: "tok = keyword_text p v s"
    by (simp_all add: keyword_match_iff)
  from occ have s: "s < length v" by (simp add: keyword_occurrence_def)
  have w: "((if s = 0 then None else char_at v (s - 1)) = Some LBRACE
             \<and> char_at v (s + length tok) = Some RBRACE)
        \<longleftrightarrow> brace_wrapped v s (s + length tok)"
    using s by (auto simp: char_at_def brace_wrapped_def)
  have "counted_keyword_token p v s
      = (if brace_wrapped v s (s + length tok) then None else Some tok)"
    by (simp only: counted_keyword_token_def Some option.case w)
  with occ tok show ?thesis by auto
qed

lemma taken_from_skip:
  assumes "\<forall>x\<in>set xs. \<not> (free \<le> x \<and> keyword_occurrence p v x)"
  shows "taken_from p v free (xs @ ys) = taken_from p v free ys"
  using assms by (induction xs) auto

lemma upt_split3:
  assumes "i \<le> s" and "s < e" and "e \<le> n"
  shows "[i..<n] = [i..<s] @ s # [Suc s..<e] @ [e..<n]"
proof -
  from assms have "[i..<n] = [i..<s] @ [s..<n]"
    by (metis le_add_diff_inverse less_imp_le_nat order_trans upt_add_eq_append)
  moreover from assms have "[s..<n] = s # [Suc s..<n]"
    by (simp add: upt_conv_Cons)
  moreover from assms have "[Suc s..<n] = [Suc s..<e] @ [e..<n]"
    by (metis Suc_leI le_add_diff_inverse upt_add_eq_append)
  ultimately show ?thesis by simp
qed

lemma taken_from_exec:
  assumes ex: "regexp_exec (keyword_match p) v i = Some (s, tok)"
  shows "taken_from p v i [i..<length v]
       = s # taken_from p v (s + length tok) [s + length tok..<length v]"
proof -
  from ex have le: "i \<le> s" and m: "keyword_match p v s = Some tok"
    by (auto dest: regexp_exec_bounds)
  from m have occ: "keyword_occurrence p v s" and tok: "tok = keyword_text p v s"
    by (simp_all add: keyword_match_iff)
  from m have pos: "s < s + length tok" and e: "s + length tok \<le> length v"
    by (auto dest: keyword_match_end)
  have before: "\<forall>x\<in>set [i..<s]. \<not> (i \<le> x \<and> keyword_occurrence p v x)"
  proof
    fix x assume "x \<in> set [i..<s]"
    then have "keyword_match p v x = None"
      using regexp_exec_first [OF ex, of x] by simp
    then have "\<not> keyword_occurrence p v x"
      using keyword_match_iff [of p v x "keyword_text p v x"] by simp
    then show "\<not> (i \<le> x \<and> keyword_occurrence p v x)" by simp
  qed
  have inside: "\<forall>x\<in>set [Suc s..<s + length tok].
      \<not> (s + length tok \<le> x \<and> keyword_occurrence p v x)"
    by simp
  have "taken_from p v i [i..<length v]
      = taken_from p v i (s # [Suc s..<s + length tok] @ [s + length tok..<length v])"
    by (simp only: upt_split3 [OF le pos e] taken_from_skip [OF before])
  also have "\<dots> = s # taken_from p v (s + length tok)
      ([Suc s..<s + length tok] @ [s + length tok..<length v])"
    using le occ by (simp add: tok)
  also have "\<dots> = s # taken_from p v (s + length tok) [s + length tok..<length v]"
    by (simp only: taken_from_skip [OF inside])
  finally show ?thesis .
qed

lemma taken_from_none:
  assumes "regexp_exec (keyword_match p) v i = None"
  shows "taken_from p v i [i..<length v] = []"
proof -
  have "\<forall>x\<in>set [i..<length v]. \<not> (i \<le> x \<and> keyword_occurrence p v x)"
  proof
    fix x assume "x \<in> set [i..<length v]"
    then have "keyword_match p v x = None"
      using regexp_exec_None [OF assms, of x] by simp
    then have "\<not> keyword_occurrence p v x"
      using keyword_match_iff [of p v x "keyword_text p v x"] by simp
    then show "\<not> (i \<le> x \<and> keyword_occurrence p v x)" by simp
  qed
  then have "taken_from p v i ([i..<length v] @ []) = taken_from p v i []"
    by (rule taken_from_skip)
  then show ?thesis by simp
qed

lemma collect_keyword_taken:
  "count_of (collect_keyword p v i counts) t
     = count_of counts t
       + length (filter (\<lambda>s. counted_keyword_token p v s = Some t)
                   (taken_from p v i [i..<length v]))"
proof (induction "Suc (length v) - i" arbitrary: i counts rule: less_induct)
  case less
  show ?case
  proof (cases "regexp_exec (keyword_match p) v i")
    case None
    then show ?thesis
      by (simp add: collect_keyword_stop taken_from_none)
  next
    case (Some r)
    obtain s tok where r: "r = (s, tok)" by (cases r)
    with Some have ex: "regexp_exec (keyword_match p) v i = Some (s, tok)" by simp
    define e where "e = s + length tok"
    define next_counts where "next_counts =
      (case counted_keyword_token p v s of None \<Rightarrow> counts | Some t' \<Rightarrow> increment counts t')"
    define rest where "rest = length (filter (\<lambda>s. counted_keyword_token p v s = Some t)
                   (taken_from p v e [e..<length v]))"
    have "Suc (length v) - e < Suc (length v) - i"
      unfolding e_def using ex by (rule keyword_exec_progress)
    then have IH: "count_of (collect_keyword p v e next_counts) t
        = count_of next_counts t + rest"
      unfolding rest_def by (rule less.hyps)
    have step: "collect_keyword p v i counts = collect_keyword p v e next_counts"
      unfolding e_def next_counts_def by (rule collect_keyword_step [OF ex])
    have nc: "count_of next_counts t
        = count_of counts t + (if counted_keyword_token p v s = Some t then 1 else 0)"
      unfolding next_counts_def
      by (cases "counted_keyword_token p v s") (simp_all add: count_of_increment)
    have "length (filter (\<lambda>s. counted_keyword_token p v s = Some t)
                   (taken_from p v i [i..<length v]))
        = (if counted_keyword_token p v s = Some t then 1 else 0) + rest"
      unfolding taken_from_exec [OF ex] rest_def e_def by simp
    with IH nc show ?thesis by (simp only: step)
  qed
qed

lemma taken_from_subseq:
  "set (taken_from p v free xs) \<subseteq> set xs
   \<and> (distinct xs \<longrightarrow> distinct (taken_from p v free xs))"
  by (induction xs arbitrary: free) auto

lemma taken_from_occurrence:
  "s \<in> set (taken_from p v free xs) \<Longrightarrow> keyword_occurrence p v s"
  by (induction xs arbitrary: free) (auto split: if_splits)

lemma taken_occurrences_distinct: "distinct (taken_occurrences p v)"
  using taken_from_subseq [of p v 0 "[0..<length v]"] by (simp add: taken_occurrences_def)

lemma taken_from_all:
  assumes "non_overlapping p v" and "sorted_wrt (<) xs"
    and "\<forall>x\<in>set xs. free \<le> x \<or> \<not> keyword_occurrence p v x"
  shows "taken_from p v free xs = filter (keyword_occurrence p v) xs"
  using assms(2,3)
proof (induction xs arbitrary: free)
  case Nil
  show ?case by simp
next
  case (Cons s ss)
  from Cons.prems(1) have ss: "sorted_wrt (<) ss" and gt: "\<forall>x\<in>set ss. s < x" by simp_all
  show ?case
  proof (cases "keyword_occurrence p v s")
    case True
    with Cons.prems(2) have fs: "free \<le> s" by simp
    have "\<forall>x\<in>set ss. s + length (keyword_text p v s) \<le> x \<or> \<not> keyword_occurrence p v x"
    proof
      fix x assume x: "x \<in> set ss"
      with gt have "s < x" by simp
      with assms(1) True show "s + length (keyword_text p v s) \<le> x \<or> \<not> keyword_occurrence p v x"
        unfolding non_overlapping_def by (metis not_less)
    qed
    with Cons.IH [OF ss] True fs show ?thesis by simp
  next
    case False
    from Cons.prems(2) have "\<forall>x\<in>set ss. free \<le> x \<or> \<not> keyword_occurrence p v x" by simp
    with Cons.IH [OF ss] False show ?thesis by simp
  qed
qed

lemma taken_occurrences_all:
  assumes "non_overlapping p v"
  shows "set (taken_occurrences p v) = {s. keyword_occurrence p v s}"
proof -
  have "taken_occurrences p v = filter (keyword_occurrence p v) [0..<length v]"
    unfolding taken_occurrences_def using assms by (rule taken_from_all) simp_all
  moreover have "s < length v" if "keyword_occurrence p v s" for s
    using that by (simp add: keyword_occurrence_def)
  ultimately show ?thesis by auto
qed

lemma count_of_empty: "count_of [] t = 0"
  by (simp add: count_of_def jsmap_get_def)

lemma collect_keyword_additive:
  "count_of (collect_keyword p v i counts) t
     = count_of counts t + count_of (collect_keyword p v i []) t"
proof (induction "Suc (length v) - i" arbitrary: i counts rule: less_induct)
  case less
  show ?case
  proof (cases "regexp_exec (keyword_match p) v i")
    case None
    then show ?thesis
      by (simp add: collect_keyword_stop count_of_empty)
  next
    case (Some r)
    obtain s tok where r: "r = (s, tok)" by (cases r)
    with Some have ex: "regexp_exec (keyword_match p) v i = Some (s, tok)" by simp
    define e where "e = s + length tok"
    define K where "K = count_of (collect_keyword p v e []) t"
    define next_counts where "next_counts c =
      (case counted_keyword_token p v s of None \<Rightarrow> c | Some t' \<Rightarrow> increment c t')" for c :: counts
    define D where "D = count_of (next_counts []) t"
    have "Suc (length v) - e < Suc (length v) - i"
      unfolding e_def using ex by (rule keyword_exec_progress)
    then have IH: "count_of (collect_keyword p v e c) t = count_of c t + K" for c
      unfolding K_def by (rule less.hyps)
    have step: "collect_keyword p v i c = collect_keyword p v e (next_counts c)" for c
      unfolding e_def next_counts_def by (rule collect_keyword_step [OF ex])
    have nc: "count_of (next_counts c) t = count_of c t + D" for c
      unfolding D_def next_counts_def
      by (cases "counted_keyword_token p v s") (simp_all add: count_of_increment count_of_empty)
    have "count_of (collect_keyword p v i counts) t = count_of counts t + D + K"
      by (simp only: step IH nc)
    moreover have "count_of (collect_keyword p v i []) t = D + K"
      by (simp only: step IH D_def)
    ultimately show ?thesis by simp
  qed
qed

lemma collect_keywords_additive:
  "count_of (collect_keywords ps v counts) t
     = count_of counts t + count_of (collect_keywords ps v []) t"
proof (induction ps arbitrary: counts)
  case Nil
  show ?case by (simp add: count_of_empty)
next
  case (Cons p ps)
  define K where "K = count_of (collect_keywords ps v []) t"
  have IH: "count_of (collect_keywords ps v c) t = count_of c t + K" for c
    unfolding K_def by (rule Cons.IH)
  show ?case
  proof (cases "p = []")
    case True
    then have step: "collect_keywords (p # ps) v c = collect_keywords ps v c" for c
      by simp
    have "count_of (collect_keywords (p # ps) v counts) t = count_of counts t + K"
      by (simp only: step IH)
    moreover have "count_of (collect_keywords (p # ps) v []) t = K"
      by (simp only: step IH count_of_empty add_0)
    ultimately show ?thesis by simp
  next
    case False
    then have step: "collect_keywords (p # ps) v c
        = collect_keywords ps v (collect_keyword p v 0 c)" for c
      by simp
    have "count_of (collect_keywords (p # ps) v counts) t
        = count_of counts t + count_of (collect_keyword p v 0 []) t + K"
      by (simp only: step IH collect_keyword_additive [of p v 0 counts])
    moreover have "count_of (collect_keywords (p # ps) v []) t
        = count_of (collect_keyword p v 0 []) t + K"
      by (simp only: step IH)
    ultimately show ?thesis by simp
  qed
qed

text \<open>What the keyword pass adds to the count of \<open>t\<close> for one prefix.\<close>

lemma keyword_prefix_count:
  "count_of (collect_keyword p v 0 []) t
     = card {s. s \<in> set (taken_occurrences p v)
                \<and> \<not> brace_wrapped v s (s + length (keyword_text p v s))
                \<and> keyword_text p v s = t}"
proof -
  let ?Q = "\<lambda>s. counted_keyword_token p v s = Some t"
  have sub: "keyword_occurrence p v s" if "s \<in> set (taken_occurrences p v)" for s
    using that unfolding taken_occurrences_def by (rule taken_from_occurrence)
  have "count_of (collect_keyword p v 0 []) t
      = length (filter ?Q (taken_occurrences p v))"
    by (simp add: collect_keyword_taken count_of_empty taken_occurrences_def)
  also have "\<dots> = card (set (filter ?Q (taken_occurrences p v)))"
  proof -
    have "distinct (filter ?Q (taken_occurrences p v))"
      using taken_occurrences_distinct by (rule distinct_filter)
    then show ?thesis by (rule distinct_card [symmetric])
  qed
  also have "set (filter ?Q (taken_occurrences p v))
      = {s. s \<in> set (taken_occurrences p v)
                \<and> \<not> brace_wrapped v s (s + length (keyword_text p v s))
                \<and> keyword_text p v s = t}"
    using sub by (auto simp: counted_keyword_token_iff)
  finally show ?thesis .
qed

section \<open>The counts of collectPlaceholders\<close>

lemma collectPlaceholders_count:
  "count_of (collectPlaceholders (JStr v) ps) t
     = card {s. \<exists>body. accepted_match v s body \<and> trim body = t \<and> t \<noteq> []}
       + count_of (collect_keywords ps v []) t"
proof -
  have "collectPlaceholders (JStr v) ps = collect_keywords ps v (collect_braces v 0 [])"
    by (cases ps) (simp_all add: collectPlaceholders_def Let_def)
  then have "count_of (collectPlaceholders (JStr v) ps) t
      = count_of (collect_braces v 0 []) t + count_of (collect_keywords ps v []) t"
    by (simp only: collect_keywords_additive [of ps v "collect_braces v 0 []"])
  then show ?thesis by (simp only: brace_pass_count)
qed

text \<open>
  Claim C1, amended. Whatever the keyword prefixes, the count of a token \<open>t\<close> in the
  result of \<open>collectPlaceholders\<close> is what the keyword pass counts for \<open>t\<close> and, from
  the brace pass, the number of brace-delimited matches whose trimmed content is \<open>t\<close>,
  \<open>t\<close> not empty, and that are neither preceded by a backslash, nor preceded by an
  opening brace, nor followed by a closing brace: a match is left out exactly when one of
  the three rules applies or its content is blank, and every other match is counted once.
\<close>

theorem collectPlaceholders_brace_counts:
  "count_of (collectPlaceholders (JStr v) ps) t
     = card {s. \<exists>body. brace_match v s body
                  \<and> \<not> escaped v s \<and> \<not> doubled_open v s
                  \<and> \<not> doubled_close v (s + length body + 2)
                  \<and> trim body = t \<and> t \<noteq> []}
       + count_of (collect_keywords ps v []) t"
  unfolding collectPlaceholders_count accepted_match_def
  by (simp add: conj_assoc)

theorem collectPlaceholders_brace_counts_witness:
  "card {s. \<exists>body. brace_match (js ''{x}{x}'') s body
                  \<and> \<not> escaped (js ''{x}{x}'') s \<and> \<not> doubled_open (js ''{x}{x}'') s
                  \<and> \<not> doubled_close (js ''{x}{x}'') (s + length body + 2)
                  \<and> trim body = js ''x'' \<and> js ''x'' \<noteq> []} = 2
   \<and> collectPlaceholders (JStr (js ''{x}{x}'')) [] = [(js ''x'', 2)]
   \<and> collectPlaceholders (JStr (BACKSLASH # js ''{x}'')) [] = []
   \<and> collectPlaceholders (JStr (js ''{{x}'')) [] = []
   \<and> collectPlaceholders (JStr (js ''{x}}'')) [] = []"
proof -
  have 1: "collectPlaceholders (JStr (js ''{x}{x}'')) [] = [(js ''x'', 2)]" by code_simp
  have 2: "collectPlaceholders (JStr (BACKSLASH # js ''{x}'')) [] = []" by code_simp
  have 3: "collectPlaceholders (JStr (js ''{{x}'')) [] = []" by code_simp
  have 4: "collectPlaceholders (JStr (js ''{x}}'')) [] = []" by code_simp
  have "count_of (collectPlaceholders (JStr (js ''{x}{x}'')) []) (js ''x'') = 2"
    unfolding 1 by (simp add: count_of_def jsmap_get_def)
  with collectPlaceholders_brace_counts [of "js ''{x}{x}''" "[]" "js ''x''"] 1 2 3 4
  show ?thesis by (simp add: count_of_def jsmap_get_def)
qed

text \<open>
  Claim C1 as the specification has it fails for a match with blank content: in
  \<^verbatim>\<open>{ }\<close> the match is neither escaped nor doubled, and nothing is counted.
\<close>

theorem blank_match_counterexample:
  "brace_match (js ''{ }'') 0 (js '' '')
   \<and> \<not> escaped (js ''{ }'') 0
   \<and> \<not> doubled_open (js ''{ }'') 0
   \<and> \<not> doubled_close (js ''{ }'') 3
   \<and> collectPlaceholders (JStr (js ''{ }'')) [] = []"
proof -
  have "collectPlaceholders (JStr (js ''{ }'')) [] = []" by code_simp
  then show ?thesis
    by (simp add: brace_match_def escaped_def doubled_open_def doubled_close_def js_def
        LBRACE_def RBRACE_def)
qed

text \<open>
  Claim C6. Every token that the brace pass stores is the trimmed content of an accepted
  match: it is not empty and has no whitespace at either end; the brace pass never counts
  the empty token; and it adds to the count of a token the number of accepted matches
  whose trimmed content the token is, so that occurrences with the same trimmed content
  accumulate.
\<close>

theorem collectPlaceholders_trimmed_tokens:
  "(\<forall>tok\<in>fst ` set (collectPlaceholders (JStr v) []).
       tok \<noteq> [] \<and> \<not> is_whitespace (hd tok) \<and> \<not> is_whitespace (last tok)
       \<and> (\<exists>s body. accepted_match v s body \<and> tok = trim body))
   \<and> count_of (collectPlaceholders (JStr v) ps) []
        = count_of (collect_keywords ps v []) []
   \<and> (t \<noteq> [] \<longrightarrow> count_of (collectPlaceholders (JStr v) ps) t
          = card {s. \<exists>body. accepted_match v s body \<and> trim body = t}
            + count_of (collect_keywords ps v []) t)"
proof -
  let ?m = "collectPlaceholders (JStr v) []"
  have cnt: "count_of ?m t' = card {s. \<exists>body. accepted_match v s body \<and> trim body = t' \<and> t' \<noteq> []}"
    for t'
    unfolding collectPlaceholders_no_keywords by (rule brace_pass_count)
  have a: "tok \<noteq> [] \<and> \<not> is_whitespace (hd tok) \<and> \<not> is_whitespace (last tok)
       \<and> (\<exists>s body. accepted_match v s body \<and> tok = trim body)"
    if "tok \<in> fst ` set ?m" for tok
  proof -
    have "1 \<le> count_of ?m tok"
      using well_formed_collectPlaceholders that by (rule stored_token_counted)
    then have "card {s. \<exists>body. accepted_match v s body \<and> trim body = tok \<and> tok \<noteq> []} \<noteq> 0"
      by (simp add: cnt)
    then have "{s. \<exists>body. accepted_match v s body \<and> trim body = tok \<and> tok \<noteq> []} \<noteq> {}"
      by (metis card.empty)
    then obtain s body where b: "accepted_match v s body" "trim body = tok" "tok \<noteq> []"
      by blast
    with trim_ends [of body] show ?thesis by auto
  qed
  have b: "count_of (collectPlaceholders (JStr v) ps) []
        = count_of (collect_keywords ps v []) []"
    by (simp add: collectPlaceholders_count)
  have c: "count_of (collectPlaceholders (JStr v) ps) t
          = card {s. \<exists>body. accepted_match v s body \<and> trim body = t}
            + count_of (collect_keywords ps v []) t"
    if "t \<noteq> []"
    using that by (simp add: collectPlaceholders_count)
  from a b c show ?thesis by blast
qed

theorem collectPlaceholders_trimmed_tokens_witness:
  "js ''a'' \<noteq> []
   \<and> card {s. \<exists>body. accepted_match (js ''{ a } {a}'') s body \<and> trim body = js ''a''} = 2
   \<and> collectPlaceholders (JStr (js ''{ a } {a}'')) [] = [(js ''a'', 2)]
   \<and> collectPlaceholders (JStr (js ''{ a }'')) [] = [(js ''a'', 1)]
   \<and> collectPlaceholders (JStr (js ''{ }'')) [] = []
   \<and> collectPlaceholders (JStr (js ''{x}{x}'')) [] = [(js ''x'', 2)]"
proof -
  have 0: "js ''a'' \<noteq> []" by (simp add: js_def)
  have 1: "collectPlaceholders (JStr (js ''{ a } {a}'')) [] = [(js ''a'', 2)]" by code_simp
  have 2: "collectPlaceholders (JStr (js ''{ a }'')) [] = [(js ''a'', 1)]" by code_simp
  have 3: "collectPlaceholders (JStr (js ''{ }'')) [] = []" by code_simp
  have 4: "collectPlaceholders (JStr (js ''{x}{x}'')) [] = [(js ''x'', 2)]" by code_simp
  have "count_of (collectPlaceholders (JStr (js ''{ a } {a}'')) []) (js ''a'') = 2"
    unfolding 1 by (simp add: count_of_def jsmap_get_def)
  with collectPlaceholders_trimmed_tokens [of "js ''{ a } {a}''" "[]" "js ''a''"] 0 1 2 3 4
  show ?thesis by (simp add: count_of_def jsmap_get_def)
qed

lemma collect_keywords_sum:
  "count_of (collect_keywords ps v counts) t
     = count_of counts t
       + (\<Sum>p\<leftarrow>ps. if p = [] then 0 else count_of (collect_keyword p v 0 []) t)"
proof (induction ps arbitrary: counts)
  case Nil
  show ?case by simp
next
  case (Cons p ps)
  define K where "K = (\<Sum>p\<leftarrow>ps. if p = [] then 0 else count_of (collect_keyword p v 0 []) t)"
  have IH: "count_of (collect_keywords ps v c) t = count_of c t + K" for c
    unfolding K_def by (rule Cons.IH)
  show ?case
  proof (cases "p = []")
    case True
    then have "collect_keywords (p # ps) v counts = collect_keywords ps v counts" by simp
    then have "count_of (collect_keywords (p # ps) v counts) t = count_of counts t + K"
      by (simp only: IH)
    with True show ?thesis by (simp add: K_def)
  next
    case False
    then have "collect_keywords (p # ps) v counts
        = collect_keywords ps v (collect_keyword p v 0 counts)" by simp
    then have "count_of (collect_keywords (p # ps) v counts) t
        = count_of counts t + count_of (collect_keyword p v 0 []) t + K"
      by (simp only: IH collect_keyword_additive [of p v 0 counts])
    with False show ?thesis by (simp add: K_def)
  qed
qed

lemma collectPlaceholders_passes:
  "collectPlaceholders (JStr v) ps = collect_keywords ps v (collectPlaceholders (JStr v) [])"
  by (cases ps) (simp_all add: collectPlaceholders_def Let_def)

lemma keyword_prefix_count_all:
  assumes "non_overlapping p v"
  shows "count_of (collect_keyword p v 0 []) t
     = card {s. keyword_occurrence p v s
                \<and> \<not> brace_wrapped v s (s + length (keyword_text p v s))
                \<and> keyword_text p v s = t}"
proof -
  have "s \<in> set (taken_occurrences p v) \<longleftrightarrow> keyword_occurrence p v s" for s
    using taken_occurrences_all [OF assms] by auto
  then show ?thesis by (simp only: keyword_prefix_count)
qed

text \<open>
  Claim C2, amended. Whatever the list of prefixes, the keyword pass adds to the counts of
  the primary pass, for each non-empty prefix of the list, one count of the matched text
  (the prefix with the digits) for each occurrence of the prefix immediately followed by
  one or more digits that the scan takes, unless the match stands directly between an
  opening and a closing brace. The scan goes from left to right and passes over an
  occurrence that begins inside the text of the match it took last; when no occurrence
  begins inside the text of another, the occurrences it takes are all the occurrences.
  That is so in every string for a prefix that contains no digit and, more generally, for
  a prefix that cannot overlap a match of itself (such as \<^verbatim>\<open>a1\<close>).
\<close>

theorem collectPlaceholders_keyword_counts:
  "count_of (collectPlaceholders (JStr v) ps) t
     = count_of (collectPlaceholders (JStr v) []) t
       + (\<Sum>p\<leftarrow>ps.
            if p = [] then 0
            else if non_overlapping p v then
              card {s. keyword_occurrence p v s
                       \<and> \<not> brace_wrapped v s (s + length (keyword_text p v s))
                       \<and> keyword_text p v s = t}
            else
              card {s. s \<in> set (taken_occurrences p v)
                       \<and> \<not> brace_wrapped v s (s + length (keyword_text p v s))
                       \<and> keyword_text p v s = t})
   \<and> (q \<noteq> [] \<and> digit_free q \<longrightarrow> non_overlapping q v)
   \<and> (overlap_free q \<longrightarrow> non_overlapping q v)
   \<and> set (taken_occurrences q v) \<subseteq> {s. keyword_occurrence q v s}"
proof -
  have each: "(if p = [] then 0 else count_of (collect_keyword p v 0 []) t)
      = (if p = [] then 0
         else if non_overlapping p v then
           card {s. keyword_occurrence p v s
                    \<and> \<not> brace_wrapped v s (s + length (keyword_text p v s))
                    \<and> keyword_text p v s = t}
         else
           card {s. s \<in> set (taken_occurrences p v)
                    \<and> \<not> brace_wrapped v s (s + length (keyword_text p v s))
                    \<and> keyword_text p v s = t})" for p
    using keyword_prefix_count_all [of p v t] keyword_prefix_count [of p v t] by simp
  have "count_of (collectPlaceholders (JStr v) ps) t
     = count_of (collectPlaceholders (JStr v) []) t
       + (\<Sum>p\<leftarrow>ps. if p = [] then 0 else count_of (collect_keyword p v 0 []) t)"
    by (subst collectPlaceholders_passes) (rule collect_keywords_sum)
  then have a: "count_of (collectPlaceholders (JStr v) ps) t
     = count_of (collectPlaceholders (JStr v) []) t
       + (\<Sum>p\<leftarrow>ps.
            if p = [] then 0
            else if non_overlapping p v then
              card {s. keyword_occurrence p v s
                       \<and> \<not> brace_wrapped v s (s + length (keyword_text p v s))
                       \<and> keyword_text p v s = t}
            else
              card {s. s \<in> set (taken_occurrences p v)
                       \<and> \<not> brace_wrapped v s (s + length (keyword_text p v s))
                       \<and> keyword_text p v s = t})"
    by (simp only: each)
  have b: "q \<noteq> [] \<and> digit_free q \<longrightarrow> non_overlapping q v"
    by (auto intro: overlap_free_non_overlapping digit_free_overlap_free)
  have c: "overlap_free q \<longrightarrow> non_overlapping q v"
    by (auto intro: overlap_free_non_overlapping)
  have d: "set (taken_occurrences q v) \<subseteq> {s. keyword_occurrence q v s}"
    unfolding taken_occurrences_def by (auto dest: taken_from_occurrence)
  from a b c d show ?thesis by (intro conjI)
qed

theorem collectPlaceholders_keyword_counts_witness:
  "js ''arg'' \<noteq> [] \<and> digit_free (js ''arg'') \<and> overlap_free (js ''v2'')
   \<and> card {s. keyword_occurrence (js ''arg'') (js ''arg1 and arg1'') s
             \<and> \<not> brace_wrapped (js ''arg1 and arg1'') s
                   (s + length (keyword_text (js ''arg'') (js ''arg1 and arg1'') s))
             \<and> keyword_text (js ''arg'') (js ''arg1 and arg1'') s = js ''arg1''}
     + card {s. keyword_occurrence (js ''v2'') (js ''arg1 and arg1'') s
             \<and> \<not> brace_wrapped (js ''arg1 and arg1'') s
                   (s + length (keyword_text (js ''v2'') (js ''arg1 and arg1'') s))
             \<and> keyword_text (js ''v2'') (js ''arg1 and arg1'') s = js ''arg1''} = 2
   \<and> collectPlaceholders (JStr (js ''arg1 and arg1'')) [js ''arg'', js ''v2'']
       = [(js ''arg1'', 2)]
   \<and> collectPlaceholders (JStr (js ''arg1 and arg1'')) [js ''arg''] = [(js ''arg1'', 2)]
   \<and> collectPlaceholders (JStr (js ''{arg1}'')) [js ''arg''] = [(js ''arg1'', 1)]
   \<and> collectPlaceholders (JStr (js ''{arg1}'')) [] = [(js ''arg1'', 1)]"
proof -
  let ?v = "js ''arg1 and arg1''"
  have n: "js ''arg'' \<noteq> []" "js ''v2'' \<noteq> []" by (simp_all add: js_def)
  have d: "digit_free (js ''arg'')" by (simp add: digit_free_def js_def is_digit_def)
  have o: "overlap_free (js ''v2'')" by code_simp
  from n d collectPlaceholders_keyword_counts [of ?v "[]" "js ''arg1''" "js ''arg''"]
  have na: "non_overlapping (js ''arg'') ?v" by blast
  from o collectPlaceholders_keyword_counts [of ?v "[]" "js ''arg1''" "js ''v2''"]
  have nv: "non_overlapping (js ''v2'') ?v" by blast
  have 0: "collectPlaceholders (JStr ?v) [js ''arg'', js ''v2''] = [(js ''arg1'', 2)]"
    by code_simp
  have 1: "collectPlaceholders (JStr ?v) [js ''arg''] = [(js ''arg1'', 2)]"
    by code_simp
  have 2: "collectPlaceholders (JStr ?v) [] = []" by code_simp
  have 3: "collectPlaceholders (JStr (js ''{arg1}'')) [js ''arg''] = [(js ''arg1'', 1)]"
    by code_simp
  have 4: "collectPlaceholders (JStr (js ''{arg1}'')) [] = [(js ''arg1'', 1)]" by code_simp
  from collectPlaceholders_keyword_counts [of ?v "[js ''arg'', js ''v2'']" "js ''arg1''"]
  have "count_of (collectPlaceholders (JStr ?v) [js ''arg'', js ''v2'']) (js ''arg1'')
     = count_of (collectPlaceholders (JStr ?v) []) (js ''arg1'')
       + (\<Sum>p\<leftarrow>[js ''arg'', js ''v2''].
            if p = [] then 0
            else if non_overlapping p ?v then
              card {s. keyword_occurrence p ?v s
                       \<and> \<not> brace_wrapped ?v s (s + length (keyword_text p ?v s))
                       \<and> keyword_text p ?v s = js ''arg1''}
            else
              card {s. s \<in> set (taken_occurrences p ?v)
                       \<and> \<not> brace_wrapped ?v s (s + length (keyword_text p ?v s))
                       \<and> keyword_text p ?v s = js ''arg1''})"
    by (rule conjunct1)
  then have "card {s. keyword_occurrence (js ''arg'') ?v s
             \<and> \<not> brace_wrapped ?v s (s + length (keyword_text (js ''arg'') ?v s))
             \<and> keyword_text (js ''arg'') ?v s = js ''arg1''}
     + card {s. keyword_occurrence (js ''v2'') ?v s
             \<and> \<not> brace_wrapped ?v s (s + length (keyword_text (js ''v2'') ?v s))
             \<and> keyword_text (js ''v2'') ?v s = js ''arg1''} = 2"
    unfolding 0 2 using n na nv by (simp add: count_of_def jsmap_get_def)
  with n(1) d o 0 1 3 4 show ?thesis by simp
qed

text \<open>
  Claim C2 as the specification has it fails for a prefix that contains a digit: in
  \<^verbatim>\<open>1a1a1\<close> the prefix \<^verbatim>\<open>1a\<close> occurs twice before a digit, at 0 and at 2, neither
  occurrence between braces, and the scan, which resumes at the end of the first match,
  counts one.
\<close>

theorem overlapping_keyword_counterexample:
  "js ''1a'' \<noteq> []
   \<and> keyword_occurrence (js ''1a'') (js ''1a1a1'') 0
   \<and> keyword_occurrence (js ''1a'') (js ''1a1a1'') 2
   \<and> keyword_text (js ''1a'') (js ''1a1a1'') 0 = js ''1a1''
   \<and> keyword_text (js ''1a'') (js ''1a1a1'') 2 = js ''1a1''
   \<and> \<not> brace_wrapped (js ''1a1a1'') 0 3
   \<and> \<not> brace_wrapped (js ''1a1a1'') 2 5
   \<and> collectPlaceholders (JStr (js ''1a1a1'')) [js ''1a''] = [(js ''1a1'', 1)]"
proof -
  have "collectPlaceholders (JStr (js ''1a1a1'')) [js ''1a''] = [(js ''1a1'', 1)]"
    by code_simp
  then show ?thesis
    by (simp add: keyword_occurrence_def keyword_text_def brace_wrapped_def js_def is_digit_def
        LBRACE_def RBRACE_def)
qed

end
